theory Spec2Isabelle
  imports Complex_Main
begin

section \<open>Clauses, events and errors\<close>

text \<open>
  A \<^verbatim>\<open>Clause*\<close> is an address; the clause objects live in a store \<open>H\<close> that maps an
  address to the fields the containers read. The classes \<^verbatim>\<open>Clause\<close>, \<^verbatim>\<open>Literal\<close>,
  \<^verbatim>\<open>Inference\<close> and \<^verbatim>\<open>Limits\<close> are declared outside the files at hand, so the record
  below lists exactly the accessors the container code calls.

  The C++ \<^verbatim>\<open>int\<close> and \<^verbatim>\<open>unsigned\<close> values (ages, weights, limits, ratios, balances) are
  symbol counts, derivation depths and small multiples of the configured ratios. They are
  kept as the integers and natural numbers they denote: no property below is about a value
  beyond the range of \<^verbatim>\<open>int\<close>, where the C++ arithmetic has no defined result.
\<close>

type_synonym cref = nat

record Inference =
  th_ancestors :: real
  all_ancestors :: real

record Clause =
  age :: int
  weight :: int
  selected :: nat
  literals :: "nat list"
  effectiveWeight :: int
  inference :: Inference

text \<open>
  \<open>literals c ! i\<close> is \<^verbatim>\<open>(*cl)[i]->weight()\<close>, \<open>effectiveWeight c\<close> is the value of
  \<^verbatim>\<open>cl->getEffectiveWeight(_opt)\<close>.
\<close>

datatype event = Added cref | Removed cref | Selected cref

datatype error =
    USER_ERROR string
  | InvalidArgument
  | Empty
  | Undefined

text \<open>
  \<open>USER_ERROR\<close> is the macro of that name with its message; \<open>InvalidArgument\<close> is the
  exception of \<^verbatim>\<open>std::stoi\<close> and \<^verbatim>\<open>std::stof\<close>; \<open>Empty\<close> is a pop from an empty
  container; \<open>Undefined\<close> stands for an execution that leaves defined behaviour (an index
  outside a vector, the end of a value-returning function reached without \<^verbatim>\<open>return\<close>).
\<close>

text \<open>
  Every container owns the three events \<^verbatim>\<open>addedEvent\<close>, \<^verbatim>\<open>removedEvent\<close> and
  \<^verbatim>\<open>selectedEvent\<close>. \<^verbatim>\<open>fire(c)\<close> calls the subscribed handlers in list order; the
  model records each fire, in order, in the list \<open>events\<close>.
\<close>

record ClauseContainer =
  events :: "event list"

section \<open>UnprocessedClauseContainer\<close>

text \<open>
  \<^verbatim>\<open>_data\<close> is the deque of the container: \<^verbatim>\<open>push_back\<close> appends, \<^verbatim>\<open>pop_back\<close> takes
  the last element.
\<close>

record UnprocessedClauseContainer = ClauseContainer +
  data :: "cref list"

definition Unprocessed_add ::
  "cref \<Rightarrow> UnprocessedClauseContainer \<Rightarrow> UnprocessedClauseContainer" where
  "Unprocessed_add c s = s\<lparr>data := data s @ [c], events := events s @ [Added c]\<rparr>"

text \<open>
  Modelled from the spec: the class of \<^verbatim>\<open>_data\<close> is not among the files, so what
  \<^verbatim>\<open>pop_back\<close> does on an empty deque is taken from the specification: the pop "fails with
  Empty".
\<close>

definition Unprocessed_pop ::
  "UnprocessedClauseContainer \<Rightarrow> error + (cref \<times> UnprocessedClauseContainer)" where
  "Unprocessed_pop s =
     (if data s = [] then Inl Empty
      else let res = last (data s)
           in Inr (res, s\<lparr>data := butlast (data s), events := events s @ [Selected res]\<rparr>))"

text \<open>The container right after construction, and the states the two operations reach.\<close>

definition Unprocessed_init :: UnprocessedClauseContainer where
  "Unprocessed_init = \<lparr>events = [], data = []\<rparr>"

inductive Unprocessed_reachable :: "UnprocessedClauseContainer \<Rightarrow> bool" where
  init: "Unprocessed_reachable Unprocessed_init"
| add: "Unprocessed_reachable s \<Longrightarrow> Unprocessed_reachable (Unprocessed_add c s)"
| pop: "Unprocessed_reachable s \<Longrightarrow> Unprocessed_pop s = Inr (c, s')
          \<Longrightarrow> Unprocessed_reachable s'"

text \<open>
  The words of the specification, read off the event history alone: the clauses added and
  not yet popped, oldest first. An \<open>Added\<close> event appends the clause; a \<open>Selected\<close> or
  \<open>Removed\<close> event cancels the latest pending addition of that clause.
\<close>

definition dropLatest :: "cref \<Rightarrow> cref list \<Rightarrow> cref list" where
  "dropLatest c xs = rev (remove1 c (rev xs))"

fun pendingStep :: "cref list \<Rightarrow> event \<Rightarrow> cref list" where
  "pendingStep xs (Added c) = xs @ [c]"
| "pendingStep xs (Selected c) = dropLatest c xs"
| "pendingStep xs (Removed c) = dropLatest c xs"

definition notYetPopped :: "event list \<Rightarrow> cref list" where
  "notYetPopped es = foldl pendingStep [] es"

section \<open>ActiveClauseContainer\<close>

datatype LimitsChangeType = LIMITS_LOOSENED | LIMITS_TIGHTENED

record Limits =
  ageLimited :: bool
  weightLimited :: bool
  ageLimit :: int
  weightLimit :: int

text \<open>
  \<open>discardedNonRedundantClauses\<close> is the counter of \<^verbatim>\<open>env.statistics\<close> that the discard
  pass increments.
\<close>

record ActiveClauseContainer = ClauseContainer +
  a_size :: int
  discardedNonRedundantClauses :: int

definition Active_add :: "cref \<Rightarrow> ActiveClauseContainer \<Rightarrow> ActiveClauseContainer" where
  "Active_add c s = s\<lparr>a_size := a_size s + 1, events := events s @ [Added c]\<rparr>"

definition Active_remove :: "cref \<Rightarrow> ActiveClauseContainer \<Rightarrow> ActiveClauseContainer" where
  "Active_remove c s = s\<lparr>a_size := a_size s - 1, events := events s @ [Removed c]\<rparr>"

text \<open>
  The inner loop \<^verbatim>\<open>for(unsigned i=0;i<selCnt;i++) maxSelWeight=max((*cl)[i]->weight(),maxSelWeight)\<close>.
  Reading a literal the clause does not have is outside defined behaviour.
\<close>

function maxSelWeightLoop :: "nat list \<Rightarrow> nat \<Rightarrow> nat \<Rightarrow> nat \<Rightarrow> nat option" where
  "maxSelWeightLoop lits selCnt i maxSelWeight =
     (if i < selCnt
      then (if i < length lits
            then maxSelWeightLoop lits selCnt (Suc i) (max (lits ! i) maxSelWeight)
            else None)
      else Some maxSelWeight)"
  by pat_completeness auto
termination
  by (relation "measure (\<lambda>(lits, selCnt, i, m). selCnt - i)") auto

declare maxSelWeightLoop.simps [simp del]

text \<open>The body of the walk after \<^verbatim>\<open>checked.insert(cl)\<close>: the value of \<^verbatim>\<open>shouldRemove\<close>.\<close>

definition shouldRemove :: "Clause \<Rightarrow> int \<Rightarrow> int \<Rightarrow> error + bool" where
  "shouldRemove cl ageLim weightLim =
     (if age cl > ageLim then Inr (effectiveWeight cl > weightLim)
      else (case maxSelWeightLoop (literals cl) (selected cl) 0 0 of
              None \<Rightarrow> Inl Undefined
            | Some maxSelWeight \<Rightarrow> Inr (weight cl - int maxSelWeight \<ge> weightLim)))"

text \<open>
  The walk over \<^verbatim>\<open>gis->getAll()\<close>: \<open>rit\<close> is the sequence of the \<^verbatim>\<open>clause\<close> fields the
  iterator yields (a clause appears once for each of its indexed literals). The loop state
  is the pair of the two function-static locals, the set \<^verbatim>\<open>checked\<close> and the stack
  \<^verbatim>\<open>toRemove\<close> (its top is the last element).
\<close>

fun walk ::
  "(cref \<Rightarrow> Clause) \<Rightarrow> int \<Rightarrow> int \<Rightarrow> cref list \<Rightarrow> cref set \<times> cref list
     \<Rightarrow> error + (cref set \<times> cref list)" where
  "walk H ageLim weightLim [] st = Inr st"
| "walk H ageLim weightLim (cl # rit) (checked, toRemove) =
     (if age (H cl) < ageLim \<or> cl \<in> checked then walk H ageLim weightLim rit (checked, toRemove)
      else (case shouldRemove (H cl) ageLim weightLim of
              Inl e \<Rightarrow> Inl e
            | Inr b \<Rightarrow> walk H ageLim weightLim rit
                        (insert cl checked, if b then toRemove @ [cl] else toRemove)))"

text \<open>The second loop: \<^verbatim>\<open>while (toRemove.isNonEmpty()) { removed=toRemove.pop(); ... }\<close>.\<close>

function removeLoop :: "cref list \<Rightarrow> ActiveClauseContainer \<Rightarrow> ActiveClauseContainer" where
  "removeLoop toRemove s =
     (if toRemove = [] then s
      else let removed = last toRemove;
               s1 = s\<lparr>discardedNonRedundantClauses := discardedNonRedundantClauses s + 1\<rparr>
           in removeLoop (butlast toRemove) (Active_remove removed s1))"
  by pat_completeness auto
termination
  by (relation "measure (\<lambda>(toRemove, s). length toRemove)") auto

declare removeLoop.simps [simp del]

text \<open>
  \<open>gis\<close> is the generating literal index as the index manager returns it: \<open>None\<close> is the
  null pointer, \<open>Some rit\<close> the sequence its \<^verbatim>\<open>getAll()\<close> yields.
\<close>

definition Active_onLimitsUpdated ::
  "(cref \<Rightarrow> Clause) \<Rightarrow> LimitsChangeType \<Rightarrow> cref list option \<Rightarrow> Limits
     \<Rightarrow> ActiveClauseContainer \<Rightarrow> error + ActiveClauseContainer" where
  "Active_onLimitsUpdated H change gis limits s =
     (if change = LIMITS_LOOSENED then Inr s
      else (case gis of
              None \<Rightarrow> Inr s
            | Some rit \<Rightarrow>
                if \<not> ageLimited limits \<or> \<not> weightLimited limits then Inr s
                else (case walk H (ageLimit limits) (weightLimit limits) rit ({}, []) of
                        Inl e \<Rightarrow> Inl e
                      | Inr (checked, toRemove) \<Rightarrow> Inr (removeLoop toRemove s))))"

text \<open>The clauses for which a pass from \<open>s\<close> to \<open>s'\<close> fired \<^verbatim>\<open>removedEvent\<close>, in order.\<close>

definition removedDuring :: "ActiveClauseContainer \<Rightarrow> ActiveClauseContainer \<Rightarrow> cref list" where
  "removedDuring s s' =
     concat (map (\<lambda>e. case e of Removed c \<Rightarrow> [c] | _ \<Rightarrow> [])
               (drop (length (events s)) (events s')))"

text \<open>The largest weight among the first \<open>selected\<close> literals of a clause (0 when none is selected).\<close>

definition maxSelectedLiteralWeight :: "Clause \<Rightarrow> nat" where
  "maxSelectedLiteralWeight cl = Max (insert 0 (set (take (selected cl) (literals cl))))"

text \<open>
  The clauses of a walk in the order of their first visit, those of \<open>seen\<close> left out.
\<close>

fun firstVisits :: "cref set \<Rightarrow> cref list \<Rightarrow> cref list" where
  "firstVisits seen [] = []"
| "firstVisits seen (c # cs) =
     (if c \<in> seen then firstVisits seen cs else c # firstVisits (insert c seen) cs)"

text \<open>The clauses a pass with the two limits takes out of Active.\<close>

definition discards :: "(cref \<Rightarrow> Clause) \<Rightarrow> int \<Rightarrow> int \<Rightarrow> cref \<Rightarrow> bool" where
  "discards H ageLim weightLim cl =
     (ageLim \<le> age (H cl) \<and> shouldRemove (H cl) ageLim weightLim = Inr True)"

section \<open>PredicateSplitPassiveClauseContainer\<close>

subsection \<open>Floating point values and integer arithmetic\<close>

text \<open>
  A \<^verbatim>\<open>float\<close> is the real number it denotes, an infinity or NaN. Comparisons are the
  IEEE ones: every comparison with NaN is false. The sign of a zero is not kept.
\<close>

datatype flt = Fin real | PInf | MInf | NaN

fun fle :: "flt \<Rightarrow> flt \<Rightarrow> bool" where
  "fle NaN y = False"
| "fle x NaN = False"
| "fle MInf y = True"
| "fle x PInf = True"
| "fle (Fin x) (Fin y) = (x \<le> y)"
| "fle PInf y = False"
| "fle x MInf = False"

text \<open>
  A \<^verbatim>\<open>float\<close> is a binary32 value: 24 significant bits, exponents from \<open>- 126\<close> to 127.
  An arithmetic result is the exact result rounded to the nearest such value, a tie going to
  the even significand. \<open>pow2 e\<close> is \<open>2\<^sup>e\<close>; \<open>binadeFrom 253 a\<close> is the exponent of the
  binade of \<open>a\<close>, the greatest \<open>e \<le> 127\<close> with \<open>2\<^sup>e \<le> a\<close>, and \<open>- 126\<close> for the values
  below the normal range; a result of \<open>2\<^sup>1\<^sup>2\<^sup>8\<close> or more is an infinity.
\<close>

definition pow2 :: "int \<Rightarrow> real" where
  "pow2 e = (if 0 \<le> e then 2 ^ nat e else 1 / 2 ^ nat (- e))"

fun binadeFrom :: "nat \<Rightarrow> real \<Rightarrow> int" where
  "binadeFrom 0 a = - 126"
| "binadeFrom (Suc n) a = (if pow2 (int n - 125) \<le> a then int n - 125 else binadeFrom n a)"

definition roundHalfEven :: "real \<Rightarrow> int" where
  "roundHalfEven m =
     (let f = \<lfloor>m\<rfloor>; d = m - of_int f
      in if d < 1 / 2 then f else if 1 / 2 < d then f + 1 else if even f then f else f + 1)"

definition round32 :: "real \<Rightarrow> flt" where
  "round32 x =
     (if x = 0 then Fin 0
      else let a = \<bar>x\<bar>;
               ulp = pow2 (binadeFrom 253 a - 23);
               r = of_int (roundHalfEven (a / ulp)) * ulp
           in if pow2 128 \<le> r then (if 0 < x then PInf else MInf)
              else Fin (if 0 < x then r else - r))"

text \<open>The operator \<^verbatim>\<open>/\<close> on two finite \<^verbatim>\<open>float\<close> values.\<close>

definition fdiv :: "real \<Rightarrow> real \<Rightarrow> flt" where
  "fdiv x y =
     (if y = 0 then (if x = 0 then NaN else if x > 0 then PInf else MInf)
      else round32 (x / y))"


definition wrap32 :: "int \<Rightarrow> int" where
  "wrap32 x = (x + 2147483648) mod 4294967296 - 2147483648"

text \<open>
  The C++ operators \<^verbatim>\<open>/\<close> and \<^verbatim>\<open>%\<close> on \<^verbatim>\<open>int\<close> truncate towards zero.
  \<^verbatim>\<open>computeGCD\<close> takes the remainder by \<open>a\<close> only when \<open>a\<close> is not 0. The constructor calls
  \<^verbatim>\<open>computeLCM\<close> after its sanity checks, with a positive ratio as second argument: the
  divisor \<^verbatim>\<open>computeGCD(a, b)\<close> is then not 0, and the quotient is within the range.
\<close>

definition cdiv :: "int \<Rightarrow> int \<Rightarrow> int" where
  "cdiv a b = sgn a * sgn b * (\<bar>a\<bar> div \<bar>b\<bar>)"

definition cmod :: "int \<Rightarrow> int \<Rightarrow> int" where
  "cmod a b = sgn a * (\<bar>a\<bar> mod \<bar>b\<bar>)"

function computeGCD :: "int \<Rightarrow> int \<Rightarrow> int" where
  "computeGCD a b = (if a = 0 then b else computeGCD (cmod b a) a)"
  by pat_completeness auto
termination
proof (relation "measure (\<lambda>(a, b). nat \<bar>a\<bar>)")
  show "wf (measure (\<lambda>(a, b). nat \<bar>a\<bar>))" by simp
next
  fix a b :: int
  assume a: "a \<noteq> 0"
  have m: "0 \<le> \<bar>b\<bar> mod \<bar>a\<bar>" "\<bar>b\<bar> mod \<bar>a\<bar> < \<bar>a\<bar>"
    using a by simp_all
  have "\<bar>cmod b a\<bar> = \<bar>sgn b\<bar> * (\<bar>b\<bar> mod \<bar>a\<bar>)"
    using m by (simp add: cmod_def abs_mult)
  also have "\<dots> \<le> \<bar>b\<bar> mod \<bar>a\<bar>"
    using m by (cases "b = 0") (simp_all add: abs_sgn_eq)
  finally have "\<bar>cmod b a\<bar> < \<bar>a\<bar>" using m by linarith
  then show "((cmod b a, a), (a, b)) \<in> measure (\<lambda>(a, b). nat \<bar>a\<bar>)"
    by simp
qed

declare computeGCD.simps [simp del]

definition computeLCM :: "int \<Rightarrow> int \<Rightarrow> int" where
  "computeLCM a b = cdiv (wrap32 (a * b)) (computeGCD a b)"

subsection \<open>The inner queues\<close>

text \<open>
  Modelled from the spec: the class \<^verbatim>\<open>AWPassiveClauseContainer\<close> of the inner queues is
  not among the files. A queue holds the clauses added and not removed; \<^verbatim>\<open>popSelected\<close>
  takes out the clause its age/weight policy chooses, which is the parameter \<open>sel\<close> here;
  the simulation is a "side-effect-free rehearsal" that consumes a copy of the content;
  each queue carries its own limits, none set in a new queue, against which its admission
  predicates (parameters of the functions that call them) decide.
\<close>

record AWPassiveClauseContainer =
  members :: "cref list"
  simulation :: "cref list"
  aw_limits :: Limits

definition AW_new :: AWPassiveClauseContainer where
  "AW_new = \<lparr>members = [], simulation = [],
     aw_limits = \<lparr>ageLimited = False, weightLimited = False, ageLimit = - 1, weightLimit = - 1\<rparr>\<rparr>"

definition aw_add :: "cref \<Rightarrow> AWPassiveClauseContainer \<Rightarrow> AWPassiveClauseContainer" where
  "aw_add cl q = q\<lparr>members := members q @ [cl]\<rparr>"

definition aw_remove :: "cref \<Rightarrow> AWPassiveClauseContainer \<Rightarrow> AWPassiveClauseContainer" where
  "aw_remove cl q = q\<lparr>members := removeAll cl (members q)\<rparr>"

definition aw_isEmpty :: "AWPassiveClauseContainer \<Rightarrow> bool" where
  "aw_isEmpty q = (members q = [])"

definition aw_popSelected ::
  "(AWPassiveClauseContainer \<Rightarrow> cref) \<Rightarrow> AWPassiveClauseContainer
     \<Rightarrow> cref \<times> AWPassiveClauseContainer" where
  "aw_popSelected sel q = (sel q, q\<lparr>members := removeAll (sel q) (members q)\<rparr>)"

definition aw_simulationInit :: "AWPassiveClauseContainer \<Rightarrow> AWPassiveClauseContainer" where
  "aw_simulationInit q = q\<lparr>simulation := members q\<rparr>"

definition aw_simulationHasNext :: "AWPassiveClauseContainer \<Rightarrow> bool" where
  "aw_simulationHasNext q = (simulation q \<noteq> [])"

definition aw_simulationPopSelected ::
  "(AWPassiveClauseContainer \<Rightarrow> cref) \<Rightarrow> AWPassiveClauseContainer
     \<Rightarrow> AWPassiveClauseContainer" where
  "aw_simulationPopSelected sel q =
     q\<lparr>simulation := removeAll (sel (q\<lparr>members := simulation q\<rparr>)) (simulation q)\<rparr>"

subsection \<open>The container and its constructor\<close>

record Options =
  splitQueueRatios :: string
  splitQueueCutoffs :: string
  splitQueueFadeIn :: bool

record PredicateSplitPassiveClauseContainer = ClauseContainer +
  isOutermost :: bool
  opt :: Options
  queues :: "AWPassiveClauseContainer list"
  ratios :: "int list"
  cutoffs :: "flt list"
  balances :: "int list"
  simulationBalances :: "int list"

text \<open>
  \<^verbatim>\<open>while (std::getline(stream, current, ','))\<close>: the pieces between commas. A piece may
  be empty; nothing follows a final comma.
\<close>

fun getlines :: "string \<Rightarrow> string \<Rightarrow> string list" where
  "getlines current [] = (if current = [] then [] else [current])"
| "getlines current (c # cs) =
     (if c = CHR '','' then current # getlines [] cs else getlines (current @ [c]) cs)"

text \<open>
  \<^verbatim>\<open>std::stoi\<close> and \<^verbatim>\<open>std::stof\<close> are parameters: a piece they do not accept gives
  \<open>None\<close>, the exception that ends the constructor.
\<close>

fun parseAll :: "(string \<Rightarrow> 'a option) \<Rightarrow> string list \<Rightarrow> 'a list option" where
  "parseAll conv [] = Some []"
| "parseAll conv (t # ts) =
     (case conv t of
        None \<Rightarrow> None
      | Some v \<Rightarrow> (case parseAll conv ts of None \<Rightarrow> None | Some vs \<Rightarrow> Some (v # vs)))"

text \<open>The loop of the sanity checks; \<open>None\<close> when every index passes.\<close>

function checkLoop :: "int list \<Rightarrow> flt list \<Rightarrow> nat \<Rightarrow> error option" where
  "checkLoop inputRatios cuts i =
     (if i < length inputRatios
      then (if i < length cuts
            then (let v = inputRatios ! i; cutoff = cuts ! i
                  in if v \<le> 0
                     then Some (USER_ERROR
                       ''Each ratio (supplied by option '-sqr') needs to be a positive integer'')
                     else if \<not> (fle (Fin 0) cutoff \<and> fle cutoff (Fin 1))
                     then Some (USER_ERROR
                       ''Each cutoff value (supplied by option '-sqc') needs to be a float in the interval [0.0,1.0]'')
                     else if i > 0 \<and> fle cutoff (cuts ! (i - 1))
                     then Some (USER_ERROR
                       ''The cutoff values (supplied by option '-sqc') must be strictly increasing'')
                     else checkLoop inputRatios cuts (Suc i))
            else Some Undefined)
      else None)"
  by pat_completeness auto
termination
  by (relation "measure (\<lambda>(inputRatios, cuts, i). length inputRatios - i)") auto

declare checkLoop.simps [simp del]

text \<open>
  \<^verbatim>\<open>auto lcm = 1; for (...) lcm = computeLCM(lcm, inputRatios[i]);\<close> with \<open>l\<close> for the
  variable \<^verbatim>\<open>lcm\<close>.
\<close>

fun lcmLoop :: "int \<Rightarrow> int list \<Rightarrow> int" where
  "lcmLoop l [] = l"
| "lcmLoop l (r # rs) = lcmLoop (computeLCM l r) rs"

definition PredicateSplit_constructor ::
  "(string \<Rightarrow> int option) \<Rightarrow> (string \<Rightarrow> flt option) \<Rightarrow> bool \<Rightarrow> Options
     \<Rightarrow> error + PredicateSplitPassiveClauseContainer" where
  "PredicateSplit_constructor stoi stof outermost options =
     (case parseAll stoi (getlines [] (splitQueueRatios options)) of
        None \<Rightarrow> Inl InvalidArgument
      | Some inputRatios \<Rightarrow>
     (case parseAll stof (getlines [] (splitQueueCutoffs options)) of
        None \<Rightarrow> Inl InvalidArgument
      | Some cuts \<Rightarrow>
          if length inputRatios < 2
          then Inl (USER_ERROR
            ''Wrong usage of option '-sqr'. Needs to have at least two values (e.g. '10,1')'')
          else if length inputRatios \<noteq> length cuts
          then Inl (USER_ERROR
            ''The number of input ratios (supplied by option '-sqr') needs to match the number of cutoffs (supplied by option '-sqc')'')
          else (case checkLoop inputRatios cuts 0 of
                  Some e \<Rightarrow> Inl e
                | None \<Rightarrow>
                    if last cuts \<noteq> Fin 1
                    then Inl (USER_ERROR
                      ''The last cutoff value (supplied by option '-sqc') must be 1.0'')
                    else (let l = lcmLoop 1 inputRatios
                          in Inr \<lparr>events = [], isOutermost = outermost, opt = options,
                                  queues = map (\<lambda>r. AW_new) inputRatios,
                                  ratios = map (\<lambda>r. cdiv l r) inputRatios,
                                  cutoffs = cuts,
                                  balances = map (\<lambda>r. 0) inputRatios,
                                  simulationBalances = []\<rparr>))))"

subsection \<open>bestQueueHeuristics\<close>

text \<open>
  The loop \<^verbatim>\<open>for (i = 0; i < _cutoffs.size(); i++) if (niceness <= _cutoffs[i]) return i;\<close>.
  The function has no \<^verbatim>\<open>return\<close> after the loop: \<open>None\<close> is the run that reaches its end.
  The two \<^verbatim>\<open>ASS\<close> lines are debug assertions and compile to nothing.
\<close>

function cutoffLoop :: "flt list \<Rightarrow> flt \<Rightarrow> nat \<Rightarrow> nat option" where
  "cutoffLoop cuts niceness i =
     (if i < length cuts
      then (if fle niceness (cuts ! i) then Some i else cutoffLoop cuts niceness (Suc i))
      else None)"
  by pat_completeness auto
termination
  by (relation "measure (\<lambda>(cuts, niceness, i). length cuts - i)") auto

declare cutoffLoop.simps [simp del]

text \<open>
  The value of \<^verbatim>\<open>niceness\<close> when the loop starts. The variable is a \<^verbatim>\<open>float\<close>: of the
  three constants, 0.0 and 0.5 are binary32 values, 0.8 is stored as the nearest one.
\<close>

definition niceness :: "bool \<Rightarrow> Inference \<Rightarrow> flt" where
  "niceness fadeIn infer =
     (let th = th_ancestors infer;
          all = all_ancestors infer;
          theoryRatio = fdiv th all
      in if fadeIn
         then (if th \<le> 2 then Fin 0
               else if th = 3 \<and> all \<le> 6 then Fin 0.5
               else if th = 4 \<and> all \<le> 5 then round32 0.8
               else theoryRatio)
         else theoryRatio)"

definition bestQueueHeuristics ::
  "PredicateSplitPassiveClauseContainer \<Rightarrow> Inference \<Rightarrow> nat option" where
  "bestQueueHeuristics s infer =
     cutoffLoop (cutoffs s) (niceness (splitQueueFadeIn (opt s)) infer) 0"

subsection \<open>add, remove, isEmpty\<close>

text \<open>\<^verbatim>\<open>for (unsigned i = from; i < _queues.size(); i++) f(_queues[i]);\<close>\<close>

function forQueuesFrom ::
  "(AWPassiveClauseContainer \<Rightarrow> AWPassiveClauseContainer) \<Rightarrow> AWPassiveClauseContainer list
     \<Rightarrow> nat \<Rightarrow> AWPassiveClauseContainer list" where
  "forQueuesFrom f qs i =
     (if i < length qs then forQueuesFrom f (qs[i := f (qs ! i)]) (Suc i) else qs)"
  by pat_completeness auto
termination
  by (relation "measure (\<lambda>(f, qs, i). length qs - i)") auto

declare forQueuesFrom.simps [simp del]

definition PredicateSplit_add ::
  "(cref \<Rightarrow> Clause) \<Rightarrow> cref \<Rightarrow> PredicateSplitPassiveClauseContainer
     \<Rightarrow> error + PredicateSplitPassiveClauseContainer" where
  "PredicateSplit_add H cl s =
     (case bestQueueHeuristics s (inference (H cl)) of
        None \<Rightarrow> Inl Undefined
      | Some bestQueueIndex \<Rightarrow>
          (let s1 = s\<lparr>queues := forQueuesFrom (aw_add cl) (queues s) bestQueueIndex\<rparr>
           in Inr (if isOutermost s1 then s1\<lparr>events := events s1 @ [Added cl]\<rparr> else s1)))"

definition PredicateSplit_remove ::
  "(cref \<Rightarrow> Clause) \<Rightarrow> cref \<Rightarrow> PredicateSplitPassiveClauseContainer
     \<Rightarrow> error + PredicateSplitPassiveClauseContainer" where
  "PredicateSplit_remove H cl s =
     (case bestQueueHeuristics s (inference (H cl)) of
        None \<Rightarrow> Inl Undefined
      | Some bestQueueIndex \<Rightarrow>
          (let s1 = s\<lparr>queues := forQueuesFrom (aw_remove cl) (queues s) bestQueueIndex\<rparr>
           in Inr (if isOutermost s1 then s1\<lparr>events := events s1 @ [Removed cl]\<rparr> else s1)))"


subsection \<open>popSelected and the simulation\<close>

text \<open>
  \<^verbatim>\<open>std::distance(v.begin(), std::min_element(v.begin(), v.end()))\<close>: the scan keeps the
  first position and moves on only to a strictly smaller element; on the empty vector the
  result is \<^verbatim>\<open>end()\<close>, at distance 0.
\<close>

function min_element_loop :: "int list \<Rightarrow> nat \<Rightarrow> nat \<Rightarrow> nat" where
  "min_element_loop v smallest i =
     (if i < length v
      then min_element_loop v (if v ! i < v ! smallest then i else smallest) (Suc i)
      else smallest)"
  by pat_completeness auto
termination
  by (relation "measure (\<lambda>(v, smallest, i). length v - i)") auto

declare min_element_loop.simps [simp del]

definition min_element :: "int list \<Rightarrow> nat" where
  "min_element v = (if v = [] then 0 else min_element_loop v 0 1)"

text \<open>
  The two scans for a queue to take from. \<open>stop q\<close> is \<^verbatim>\<open>_queues[i]->isEmpty()\<close> in
  \<^verbatim>\<open>popSelected\<close> and \<^verbatim>\<open>!_queues[i]->simulationHasNext()\<close> in the simulation.
  \<^verbatim>\<open>currIndex\<close> is signed: the leftward scan has no lower bound in the code, and at
  \<open>- 1\<close> it reads outside the vector.
\<close>

function scanRight ::
  "(AWPassiveClauseContainer \<Rightarrow> bool) \<Rightarrow> AWPassiveClauseContainer list \<Rightarrow> nat \<Rightarrow> nat" where
  "scanRight stop qs currIndex =
     (if currIndex < length qs \<and> stop (qs ! currIndex) then scanRight stop qs (Suc currIndex)
      else currIndex)"
  by pat_completeness auto
termination
  by (relation "measure (\<lambda>(stop, qs, currIndex). length qs - currIndex)") auto

declare scanRight.simps [simp del]

function scanLeft ::
  "(AWPassiveClauseContainer \<Rightarrow> bool) \<Rightarrow> AWPassiveClauseContainer list \<Rightarrow> int \<Rightarrow> nat option" where
  "scanLeft stop qs currIndex =
     (if currIndex < 0 \<or> int (length qs) \<le> currIndex then None
      else if stop (qs ! nat currIndex) then scanLeft stop qs (currIndex - 1)
      else Some (nat currIndex))"
  by pat_completeness auto
termination
  by (relation "measure (\<lambda>(stop, qs, currIndex). nat (currIndex + 1))") auto

declare scanLeft.simps [simp del]

text \<open>The queue both functions settle on, from the round-robin choice \<open>queueIndex\<close>.\<close>

definition chooseQueue ::
  "(AWPassiveClauseContainer \<Rightarrow> bool) \<Rightarrow> AWPassiveClauseContainer list \<Rightarrow> nat \<Rightarrow> nat option" where
  "chooseQueue stop qs queueIndex =
     (let currIndex = scanRight stop qs queueIndex
      in if currIndex = length qs then scanLeft stop qs (int queueIndex - 1)
         else if currIndex < length qs then Some currIndex
         else None)"

definition PredicateSplit_popSelected ::
  "(AWPassiveClauseContainer \<Rightarrow> cref) \<Rightarrow> PredicateSplitPassiveClauseContainer
     \<Rightarrow> error + (cref \<times> PredicateSplitPassiveClauseContainer)" where
  "PredicateSplit_popSelected sel s =
     (let queueIndex = min_element (balances s)
      in if length (balances s) \<le> queueIndex \<or> length (ratios s) \<le> queueIndex then Inl Undefined
         else (let s1 = s\<lparr>balances :=
                           (balances s)[queueIndex :=
                              wrap32 (balances s ! queueIndex + ratios s ! queueIndex)]\<rparr>
               in case chooseQueue aw_isEmpty (queues s1) queueIndex of
                    None \<Rightarrow> Inl Undefined
                  | Some currIndex \<Rightarrow>
                      (let (cl, q) = aw_popSelected sel (queues s1 ! currIndex);
                           s2 = s1\<lparr>queues := (queues s1)[currIndex := q]\<rparr>;
                           s3 = s2\<lparr>queues := forQueuesFrom (aw_remove cl) (queues s2) 0\<rparr>
                       in Inr (cl, s3\<lparr>events := events s3 @ [Selected cl]\<rparr>))))"

definition PredicateSplit_simulationInit ::
  "PredicateSplitPassiveClauseContainer \<Rightarrow> PredicateSplitPassiveClauseContainer" where
  "PredicateSplit_simulationInit s =
     s\<lparr>simulationBalances := balances s, queues := map aw_simulationInit (queues s)\<rparr>"

definition PredicateSplit_simulationHasNext :: "PredicateSplitPassiveClauseContainer \<Rightarrow> bool" where
  "PredicateSplit_simulationHasNext s = list_ex aw_simulationHasNext (queues s)"

definition PredicateSplit_simulationPopSelected ::
  "(AWPassiveClauseContainer \<Rightarrow> cref) \<Rightarrow> PredicateSplitPassiveClauseContainer
     \<Rightarrow> error + PredicateSplitPassiveClauseContainer" where
  "PredicateSplit_simulationPopSelected sel s =
     (let queueIndex = min_element (simulationBalances s)
      in if length (simulationBalances s) \<le> queueIndex \<or> length (ratios s) \<le> queueIndex
         then Inl Undefined
         else (let s1 = s\<lparr>simulationBalances :=
                           (simulationBalances s)[queueIndex :=
                              wrap32 (simulationBalances s ! queueIndex + ratios s ! queueIndex)]\<rparr>
               in case chooseQueue (\<lambda>q. \<not> aw_simulationHasNext q) (queues s1) queueIndex of
                    None \<Rightarrow> Inl Undefined
                  | Some currIndex \<Rightarrow>
                      Inr (s1\<lparr>queues := (queues s1)[currIndex :=
                                 aw_simulationPopSelected sel (queues s1 ! currIndex)]\<rparr>)))"

text \<open>A run of the simulation: \<^verbatim>\<open>simulationInit\<close>, then \<open>n\<close> calls of \<^verbatim>\<open>simulationPopSelected\<close>.\<close>

fun simulationPops ::
  "(AWPassiveClauseContainer \<Rightarrow> cref) \<Rightarrow> nat \<Rightarrow> PredicateSplitPassiveClauseContainer
     \<Rightarrow> error + PredicateSplitPassiveClauseContainer" where
  "simulationPops sel 0 s = Inr s"
| "simulationPops sel (Suc n) s =
     (case PredicateSplit_simulationPopSelected sel s of
        Inl e \<Rightarrow> Inl e
      | Inr s' \<Rightarrow> simulationPops sel n s')"

definition simulationRun ::
  "(AWPassiveClauseContainer \<Rightarrow> cref) \<Rightarrow> nat \<Rightarrow> PredicateSplitPassiveClauseContainer
     \<Rightarrow> error + PredicateSplitPassiveClauseContainer" where
  "simulationRun sel n s = simulationPops sel n (PredicateSplit_simulationInit s)"

subsection \<open>Admission predicates\<close>

text \<open>
  \<^verbatim>\<open>for (unsigned i = from; i < _queues.size(); i++) if (admits(_queues[i])) return true;
  return false;\<close>
\<close>

function anyQueueFrom ::
  "(AWPassiveClauseContainer \<Rightarrow> bool) \<Rightarrow> AWPassiveClauseContainer list \<Rightarrow> nat \<Rightarrow> bool" where
  "anyQueueFrom admits qs i =
     (if i < length qs then (if admits (qs ! i) then True else anyQueueFrom admits qs (Suc i))
      else False)"
  by pat_completeness auto
termination
  by (relation "measure (\<lambda>(admits, qs, i). length qs - i)") auto

declare anyQueueFrom.simps [simp del]

text \<open>
  \<open>aw_fulfilsAgeLimit q cl\<close> and \<open>aw_fulfilsWeightLimit q cl\<close> are the inner queue's
  \<^verbatim>\<open>fulfilsAgeLimit(cl)\<close> and \<^verbatim>\<open>fulfilsWeightLimit(cl)\<close>.
\<close>

definition PredicateSplit_fulfilsAgeLimit ::
  "(AWPassiveClauseContainer \<Rightarrow> cref \<Rightarrow> bool) \<Rightarrow> (cref \<Rightarrow> Clause)
     \<Rightarrow> PredicateSplitPassiveClauseContainer \<Rightarrow> cref \<Rightarrow> error + bool" where
  "PredicateSplit_fulfilsAgeLimit aw_fulfilsAgeLimit H s cl =
     (case bestQueueHeuristics s (inference (H cl)) of
        None \<Rightarrow> Inl Undefined
      | Some b \<Rightarrow> Inr (anyQueueFrom (\<lambda>queue. aw_fulfilsAgeLimit queue cl) (queues s) b))"

definition PredicateSplit_fulfilsWeightLimit ::
  "(AWPassiveClauseContainer \<Rightarrow> cref \<Rightarrow> bool) \<Rightarrow> (cref \<Rightarrow> Clause)
     \<Rightarrow> PredicateSplitPassiveClauseContainer \<Rightarrow> cref \<Rightarrow> error + bool" where
  "PredicateSplit_fulfilsWeightLimit aw_fulfilsWeightLimit H s cl =
     (case bestQueueHeuristics s (inference (H cl)) of
        None \<Rightarrow> Inl Undefined
      | Some b \<Rightarrow> Inr (anyQueueFrom (\<lambda>queue. aw_fulfilsWeightLimit queue cl) (queues s) b))"

subsection \<open>Reachable states\<close>

text \<open>
  The states a container built as \<open>s0\<close> goes through under its own operations. The limit
  updates of the inner queues (the discard of the limited resource strategy) are not among
  them.
\<close>

inductive PredicateSplit_reachable ::
  "(cref \<Rightarrow> Clause) \<Rightarrow> PredicateSplitPassiveClauseContainer
     \<Rightarrow> PredicateSplitPassiveClauseContainer \<Rightarrow> bool"
  for H :: "cref \<Rightarrow> Clause" and s0 :: PredicateSplitPassiveClauseContainer where
  built: "PredicateSplit_reachable H s0 s0"
| added: "PredicateSplit_reachable H s0 s \<Longrightarrow> PredicateSplit_add H cl s = Inr s'
           \<Longrightarrow> PredicateSplit_reachable H s0 s'"
| removed: "PredicateSplit_reachable H s0 s \<Longrightarrow> PredicateSplit_remove H cl s = Inr s'
           \<Longrightarrow> PredicateSplit_reachable H s0 s'"
| popped: "PredicateSplit_reachable H s0 s \<Longrightarrow> PredicateSplit_popSelected sel s = Inr (cl, s')
           \<Longrightarrow> PredicateSplit_reachable H s0 s'"
| simulationStarted: "PredicateSplit_reachable H s0 s
           \<Longrightarrow> PredicateSplit_reachable H s0 (PredicateSplit_simulationInit s)"
| simulationPopped: "PredicateSplit_reachable H s0 s
           \<Longrightarrow> PredicateSplit_simulationPopSelected sel s = Inr s'
           \<Longrightarrow> PredicateSplit_reachable H s0 s'"

subsection \<open>Predicates of the statements\<close>

text \<open>The comparison \<^verbatim>\<open><\<close> on floats.\<close>

definition flt_less :: "flt \<Rightarrow> flt \<Rightarrow> bool" where
  "flt_less x y = (fle x y \<and> \<not> fle y x)"

text \<open>The index \<open>j\<close> passes the three tests of the loop of sanity checks.\<close>

definition cutoffOk :: "int list \<Rightarrow> flt list \<Rightarrow> nat \<Rightarrow> bool" where
  "cutoffOk rs cuts j =
     (0 < rs ! j \<and> fle (Fin 0) (cuts ! j) \<and> fle (cuts ! j) (Fin 1)
      \<and> (0 < j \<longrightarrow> \<not> fle (cuts ! j) (cuts ! (j - 1))))"

text \<open>What the six rules of the configuration say about the parsed ratios and cutoffs.\<close>

definition violatesRules :: "int list \<Rightarrow> flt list \<Rightarrow> bool" where
  "violatesRules rs cuts =
     (length rs < 2
      \<or> length rs \<noteq> length cuts
      \<or> (\<exists>r \<in> set rs. r \<le> 0)
      \<or> (\<exists>c \<in> set cuts. \<not> (fle (Fin 0) c \<and> fle c (Fin 1)))
      \<or> (\<exists>i. 0 < i \<and> i < length cuts \<and> \<not> flt_less (cuts ! (i - 1)) (cuts ! i))
      \<or> last cuts \<noteq> Fin 1)"


text \<open>
  What no operation changes: \<open>s\<close> is a state of the container built as \<open>s0\<close>, with any
  balances and any content of the queues.
\<close>

definition sameConfiguration ::
  "PredicateSplitPassiveClauseContainer \<Rightarrow> PredicateSplitPassiveClauseContainer \<Rightarrow> bool" where
  "sameConfiguration s0 s =
     (cutoffs s = cutoffs s0 \<and> ratios s = ratios s0 \<and> opt s = opt s0
      \<and> isOutermost s = isOutermost s0
      \<and> length (queues s) = length (queues s0)
      \<and> length (balances s) = length (balances s0))"


section \<open>Example data\<close>

text \<open>Concrete clauses, limits and containers on which the theorems below are instantiated.\<close>

definition exampleClauses :: "cref \<Rightarrow> Clause" where
  "exampleClauses c =
     \<lparr>age = int c, weight = 10, selected = 1, literals = [3, 4], effectiveWeight = 12,
      inference = \<lparr>th_ancestors = (if c = 0 then 1 else 4), all_ancestors = 5\<rparr>\<rparr>"

definition exampleLimits :: Limits where
  "exampleLimits = \<lparr>ageLimited = True, weightLimited = True, ageLimit = 2, weightLimit = 7\<rparr>"

definition exampleActive :: ActiveClauseContainer where
  "exampleActive = \<lparr>events = [], a_size = 4, discardedNonRedundantClauses = 0\<rparr>"

definition exampleStoi :: "string \<Rightarrow> int option" where
  "exampleStoi t =
     (if t = ''4'' then Some 4 else if t = ''1'' then Some 1 else if t = ''0'' then Some 0
      else None)"

definition exampleStof :: "string \<Rightarrow> flt option" where
  "exampleStof t =
     (if t = ''0.5'' then Some (Fin 0.5) else if t = ''1.0'' then Some (Fin 1) else None)"

definition exampleOptions :: Options where
  "exampleOptions =
     \<lparr>splitQueueRatios = ''4,1'', splitQueueCutoffs = ''0.5,1.0'', splitQueueFadeIn = True\<rparr>"

definition exampleContainer :: PredicateSplitPassiveClauseContainer where
  "exampleContainer =
     \<lparr>events = [], isOutermost = True, opt = exampleOptions,
      queues = [AW_new, AW_new], ratios = [1, 4], cutoffs = [Fin 0.5, Fin 1],
      balances = [0, 0], simulationBalances = []\<rparr>"

text \<open>
  A container with the cutoffs 0.7 and 1.0: the first is the binary32 value that
  \<^verbatim>\<open>std::stof\<close> returns for 0.7.
\<close>

definition exampleSeventy :: PredicateSplitPassiveClauseContainer where
  "exampleSeventy =
     \<lparr>events = [], isOutermost = True, opt = exampleOptions,
      queues = [AW_new, AW_new], ratios = [1, 4],
      cutoffs = [Fin (11744051 / 16777216), Fin 1],
      balances = [0, 0], simulationBalances = []\<rparr>"

definition exampleLoaded :: PredicateSplitPassiveClauseContainer where
  "exampleLoaded =
     \<lparr>events = [Added 1], isOutermost = True, opt = exampleOptions,
      queues = [AW_new, AW_new\<lparr>members := [1]\<rparr>], ratios = [1, 4],
      cutoffs = [Fin 0.5, Fin 1], balances = [0, 0], simulationBalances = []\<rparr>"




definition exampleSimulated :: PredicateSplitPassiveClauseContainer where
  "exampleSimulated =
     \<lparr>events = [Added 1], isOutermost = True, opt = exampleOptions,
      queues = [AW_new, AW_new\<lparr>members := [1]\<rparr>], ratios = [1, 4],
      cutoffs = [Fin 0.5, Fin 1], balances = [0, 0], simulationBalances = [1, 0]\<rparr>"








section \<open>Properties of the Unprocessed container\<close>

lemma dropLatest_last: "xs \<noteq> [] \<Longrightarrow> dropLatest (last xs) xs = butlast xs"
  by (cases xs rule: rev_cases) (simp_all add: dropLatest_def)

lemma notYetPopped_snoc: "notYetPopped (es @ [e]) = pendingStep (notYetPopped es) e"
  by (simp add: notYetPopped_def)

text \<open>The deque is the history's list of pending clauses.\<close>

lemma Unprocessed_data_pending:
  "Unprocessed_reachable s \<Longrightarrow> data s = notYetPopped (events s)"
proof (induction rule: Unprocessed_reachable.induct)
  case init
  show ?case by (simp add: Unprocessed_init_def notYetPopped_def)
next
  case (add s c)
  then show ?case by (simp add: Unprocessed_add_def notYetPopped_snoc)
next
  case (pop s c s')
  from pop.hyps(2) have ne: "data s \<noteq> []" and c: "c = last (data s)"
    and s': "s' = s\<lparr>data := butlast (data s), events := events s @ [Selected c]\<rparr>"
    by (auto simp: Unprocessed_pop_def Let_def split: if_splits)
  show ?case using pop.IH ne c s'
    by (simp add: notYetPopped_snoc dropLatest_last)
qed

text \<open>
  C8. On a non-empty Unprocessed container, \<^verbatim>\<open>pop()\<close> returns the clause that was added
  last among those not yet popped, fires \<^verbatim>\<open>selectedEvent\<close> for it, and leaves the other
  pending clauses in place.
\<close>

theorem Unprocessed_pop_latest:
  assumes "Unprocessed_reachable s" and "data s \<noteq> []"
  shows "\<exists>c s'. Unprocessed_pop s = Inr (c, s')
           \<and> c = last (notYetPopped (events s))
           \<and> events s' = events s @ [Selected c]
           \<and> data s' = butlast (data s)
           \<and> notYetPopped (events s') = butlast (notYetPopped (events s))"
proof -
  have d: "data s = notYetPopped (events s)"
    using assms(1) by (rule Unprocessed_data_pending)
  show ?thesis using assms(2) d
    by (simp add: Unprocessed_pop_def Let_def notYetPopped_snoc dropLatest_last)
qed

theorem Unprocessed_pop_latest_witness:
  "Unprocessed_reachable (Unprocessed_add 7 (Unprocessed_add 5 Unprocessed_init))
   \<and> data (Unprocessed_add 7 (Unprocessed_add 5 Unprocessed_init)) \<noteq> []
   \<and> (\<exists>s'. Unprocessed_pop (Unprocessed_add 7 (Unprocessed_add 5 Unprocessed_init)) = Inr (7, s')
          \<and> data s' = [5])"
proof -
  let ?s = "Unprocessed_add 7 (Unprocessed_add 5 Unprocessed_init)"
  have r: "Unprocessed_reachable ?s"
    by (intro Unprocessed_reachable.add Unprocessed_reachable.init)
  have d: "data ?s \<noteq> []" by (simp add: Unprocessed_add_def)
  have e: "notYetPopped (events ?s) = [5, 7]"
    by (simp add: Unprocessed_add_def Unprocessed_init_def notYetPopped_def)
  have dd: "data ?s = [5, 7]" by (simp add: Unprocessed_add_def Unprocessed_init_def)
  from Unprocessed_pop_latest [OF r d] e dd r d show ?thesis by auto
qed

section \<open>Properties of the discard pass of the Active container\<close>

lemma maxSelWeightLoop_Some:
  "i \<le> selCnt \<Longrightarrow>
   (maxSelWeightLoop lits selCnt i m = Some r) =
   ((selCnt \<le> length lits \<or> i = selCnt) \<and> r = Max (insert m (set (drop i (take selCnt lits)))))"
proof (induction lits selCnt i m rule: maxSelWeightLoop.induct)
  case (1 lits selCnt i m)
  show ?case
  proof (cases "i < selCnt")
    case False
    with "1.prems" have eq: "i = selCnt" by simp
    have "maxSelWeightLoop lits selCnt i m = Some m"
      using False by (subst maxSelWeightLoop.simps) simp
    then show ?thesis using eq by auto
  next
    case lt: True
    show ?thesis
    proof (cases "i < length lits")
      case False
      with lt show ?thesis by (simp add: maxSelWeightLoop.simps [of lits selCnt i m])
    next
      case True
      have d: "drop i (take selCnt lits) = lits ! i # drop (Suc i) (take selCnt lits)"
      proof -
        have "i < length (take selCnt lits)" using lt True by simp
        from Cons_nth_drop_Suc [OF this] lt show ?thesis by simp
      qed
      have IH: "(maxSelWeightLoop lits selCnt (Suc i) (max (lits ! i) m) = Some r) =
           ((selCnt \<le> length lits \<or> Suc i = selCnt) \<and>
            r = Max (insert (max (lits ! i) m) (set (drop (Suc i) (take selCnt lits)))))"
        using "1.IH" [OF lt True] lt by simp
      have mx: "Max (insert m (insert (lits ! i) (set (drop (Suc i) (take selCnt lits))))) =
            Max (insert (max (lits ! i) m) (set (drop (Suc i) (take selCnt lits))))"
        by (cases "set (drop (Suc i) (take selCnt lits)) = {}") (auto simp: max.commute max.left_commute)
      show ?thesis
        using lt True IH mx d
        by (auto simp: maxSelWeightLoop.simps [of lits selCnt i m])
    qed
  qed
qed

lemma maxSelWeightLoop_start:
  "(maxSelWeightLoop (literals cl) (selected cl) 0 0 = Some r) =
   (selected cl \<le> length (literals cl) \<and> r = maxSelectedLiteralWeight cl)"
  using maxSelWeightLoop_Some [of 0 "selected cl" "literals cl" 0 r]
  by (auto simp: maxSelectedLiteralWeight_def)

lemma filter_firstVisits_insert:
  "\<not> Q x \<Longrightarrow> filter Q (firstVisits (insert x A) xs) = filter Q (firstVisits A xs)"
proof (induction xs arbitrary: A)
  case Nil
  show ?case by simp
next
  case (Cons y ys)
  show ?case
  proof (cases "y = x")
    case True
    with Cons show ?thesis by (cases "x \<in> A") (simp_all add: insert_absorb)
  next
    case False
    with Cons show ?thesis by (simp add: insert_commute)
  qed
qed

lemma walk_collects:
  "walk H ageLim weightLim rit (checked, toRemove) = Inr (checked', toRemove') \<Longrightarrow>
   toRemove' = toRemove @ filter (discards H ageLim weightLim) (firstVisits checked rit)"
proof (induction rit arbitrary: checked toRemove)
  case Nil
  then show ?case by simp
next
  case (Cons cl rit)
  show ?case
  proof (cases "cl \<in> checked")
    case True
    with Cons show ?thesis by simp
  next
    case notin: False
    show ?thesis
    proof (cases "age (H cl) < ageLim")
      case True
      then have nd: "\<not> discards H ageLim weightLim cl" by (simp add: discards_def)
      from Cons.prems True have "walk H ageLim weightLim rit (checked, toRemove) = Inr (checked', toRemove')"
        by simp
      from Cons.IH [OF this] show ?thesis
        using notin nd by (simp add: filter_firstVisits_insert)
    next
      case False
      with notin Cons.prems obtain b where
        b: "shouldRemove (H cl) ageLim weightLim = Inr b" and
        w: "walk H ageLim weightLim rit (insert cl checked, if b then toRemove @ [cl] else toRemove)
              = Inr (checked', toRemove')"
        by (auto split: sum.splits)
      have "discards H ageLim weightLim cl = b" using False b by (simp add: discards_def)
      with Cons.IH [OF w] notin show ?thesis by simp
    qed
  qed
qed

lemma walk_defined:
  "walk H ageLim weightLim rit (checked, toRemove) = Inr (checked', toRemove') \<Longrightarrow>
   cl \<in> set rit \<Longrightarrow> cl \<notin> checked \<Longrightarrow> ageLim \<le> age (H cl) \<Longrightarrow>
   \<exists>b. shouldRemove (H cl) ageLim weightLim = Inr b"
proof (induction rit arbitrary: checked toRemove)
  case Nil
  then show ?case by simp
next
  case (Cons c rit)
  show ?case
  proof (cases "age (H c) < ageLim \<or> c \<in> checked")
    case True
    with Cons.prems have w: "walk H ageLim weightLim rit (checked, toRemove) = Inr (checked', toRemove')"
      and "cl \<in> set rit" by auto
    with Cons.IH [OF w] Cons.prems show ?thesis by simp
  next
    case False
    with Cons.prems obtain b where
      b: "shouldRemove (H c) ageLim weightLim = Inr b" and
      w: "walk H ageLim weightLim rit (insert c checked, if b then toRemove @ [c] else toRemove)
            = Inr (checked', toRemove')"
      by (auto split: sum.splits)
    show ?thesis
    proof (cases "cl = c")
      case True
      with b show ?thesis by blast
    next
      case False
      with Cons.prems have "cl \<in> set rit" "cl \<notin> insert c checked" by auto
      with Cons.IH [OF w] Cons.prems(4) show ?thesis by blast
    qed
  qed
qed

lemma set_firstVisits: "set (firstVisits A xs) = set xs - A"
  by (induction xs arbitrary: A) auto

lemma distinct_firstVisits: "distinct (firstVisits A xs)"
  by (induction xs arbitrary: A) (auto simp: set_firstVisits)

lemma removeLoop_snoc:
  "removeLoop (xs @ [x]) s =
   removeLoop xs (Active_remove x (s\<lparr>discardedNonRedundantClauses := discardedNonRedundantClauses s + 1\<rparr>))"
  by (subst removeLoop.simps) (simp add: Let_def)

lemma removeLoop_events:
  "events (removeLoop xs s) = events s @ map Removed (rev xs)"
  by (induction xs arbitrary: s rule: rev_induct)
     (simp_all add: removeLoop.simps [of "[]"] removeLoop_snoc Active_remove_def)

lemma removeLoop_size:
  "a_size (removeLoop xs s) = a_size s - int (length xs)"
  by (induction xs arbitrary: s rule: rev_induct)
     (simp_all add: removeLoop.simps [of "[]"] removeLoop_snoc Active_remove_def)

lemma removeLoop_discarded:
  "discardedNonRedundantClauses (removeLoop xs s) = discardedNonRedundantClauses s + int (length xs)"
  by (induction xs arbitrary: s rule: rev_induct)
     (simp_all add: removeLoop.simps [of "[]"] removeLoop_snoc Active_remove_def)

lemma removedDuring_removeLoop: "removedDuring s (removeLoop xs s) = rev xs"
proof -
  have "concat (map (\<lambda>e. case e of Removed c \<Rightarrow> [c] | _ \<Rightarrow> []) (map Removed ys)) = ys" for ys
    by (induction ys) simp_all
  then show ?thesis by (simp add: removedDuring_def removeLoop_events)
qed

lemma onLimitsUpdated_tightened:
  assumes "Active_onLimitsUpdated H LIMITS_TIGHTENED (Some rit) limits s = Inr s'"
      and "ageLimited limits" and "weightLimited limits"
  shows "\<exists>checked toRemove.
           walk H (ageLimit limits) (weightLimit limits) rit ({}, []) = Inr (checked, toRemove)
           \<and> s' = removeLoop toRemove s"
  using assms by (auto simp: Active_onLimitsUpdated_def split: sum.splits)


lemma discards_older:
  "age (H cl) > ageLim \<Longrightarrow> discards H ageLim weightLim cl = (effectiveWeight (H cl) > weightLim)"
  by (simp add: discards_def shouldRemove_def)

lemma discards_at_limit:
  "age (H cl) = ageLim \<Longrightarrow> shouldRemove (H cl) ageLim weightLim = Inr b \<Longrightarrow>
   discards H ageLim weightLim cl = (weight (H cl) - int (maxSelectedLiteralWeight (H cl)) \<ge> weightLim)"
  by (auto simp: discards_def shouldRemove_def maxSelWeightLoop_start split: option.splits)

lemma onLimitsUpdated_removed:
  assumes "Active_onLimitsUpdated H LIMITS_TIGHTENED (Some rit) limits s = Inr s'"
      and "ageLimited limits" and "weightLimited limits"
  shows "removedDuring s s' =
           rev (filter (discards H (ageLimit limits) (weightLimit limits)) (firstVisits {} rit))"
proof -
  from onLimitsUpdated_tightened [OF assms] obtain checked toRemove where
    w: "walk H (ageLimit limits) (weightLimit limits) rit ({}, []) = Inr (checked, toRemove)"
    and s': "s' = removeLoop toRemove s" by blast
  from walk_collects [OF w] s' show ?thesis by (simp add: removedDuring_removeLoop)
qed

text \<open>
  C1. A pass on \<^verbatim>\<open>LIMITS_TIGHTENED\<close> with both limits set removes exactly these clauses of
  the index: a clause older than the age limit iff its effective weight exceeds the weight
  limit; a clause at the age limit iff its weight minus the largest weight among its
  selected literals is at least the weight limit; a younger clause never.
\<close>

theorem Active_discard_predicate:
  assumes "Active_onLimitsUpdated H LIMITS_TIGHTENED (Some rit) limits s = Inr s'"
      and "ageLimited limits" and "weightLimited limits"
  shows "(cl \<in> set rit \<and> age (H cl) > ageLimit limits \<longrightarrow>
            (cl \<in> set (removedDuring s s') \<longleftrightarrow> effectiveWeight (H cl) > weightLimit limits))
       \<and> (cl \<in> set rit \<and> age (H cl) = ageLimit limits \<longrightarrow>
            (cl \<in> set (removedDuring s s') \<longleftrightarrow>
               weight (H cl) - int (maxSelectedLiteralWeight (H cl)) \<ge> weightLimit limits))
       \<and> (age (H cl) < ageLimit limits \<longrightarrow> cl \<notin> set (removedDuring s s'))
       \<and> (cl \<notin> set rit \<longrightarrow> cl \<notin> set (removedDuring s s'))"
proof -
  let ?al = "ageLimit limits" and ?wl = "weightLimit limits"
  from onLimitsUpdated_tightened [OF assms] obtain checked toRemove where
    w: "walk H ?al ?wl rit ({}, []) = Inr (checked, toRemove)" by blast
  have r: "cl \<in> set (removedDuring s s') \<longleftrightarrow> cl \<in> set rit \<and> discards H ?al ?wl cl"
    by (simp add: onLimitsUpdated_removed [OF assms] set_firstVisits)
  have older: "age (H cl) > ?al \<Longrightarrow> discards H ?al ?wl cl = (effectiveWeight (H cl) > ?wl)"
    by (rule discards_older)
  have at: "discards H ?al ?wl cl = (weight (H cl) - int (maxSelectedLiteralWeight (H cl)) \<ge> ?wl)"
    if "cl \<in> set rit" "age (H cl) = ?al"
  proof -
    from walk_defined [OF w that(1)] that(2) obtain b where
      b: "shouldRemove (H cl) ?al ?wl = Inr b" by auto
    show ?thesis using that(2) b by (rule discards_at_limit)
  qed
  have younger: "age (H cl) < ?al \<Longrightarrow> \<not> discards H ?al ?wl cl"
    by (simp add: discards_def)
  show ?thesis using r older at younger by blast
qed

lemma example_pass:
  "Active_onLimitsUpdated exampleClauses LIMITS_TIGHTENED (Some [0, 1, 2, 1, 3, 2]) exampleLimits
     exampleActive
   = Inr \<lparr>events = [Removed 3, Removed 2], a_size = 2, discardedNonRedundantClauses = 2\<rparr>"
  by code_simp

theorem Active_discard_predicate_witness:
  "Active_onLimitsUpdated exampleClauses LIMITS_TIGHTENED (Some [0, 1, 2, 1, 3, 2]) exampleLimits
     exampleActive
   = Inr \<lparr>events = [Removed 3, Removed 2], a_size = 2, discardedNonRedundantClauses = 2\<rparr>
   \<and> ageLimited exampleLimits \<and> weightLimited exampleLimits
   \<and> 2 \<in> set [0, 1, 2, 1, 3, 2::nat] \<and> age (exampleClauses 2) = ageLimit exampleLimits
   \<and> weight (exampleClauses 2) - int (maxSelectedLiteralWeight (exampleClauses 2))
       \<ge> weightLimit exampleLimits
   \<and> 2 \<in> set (removedDuring exampleActive
              \<lparr>events = [Removed 3, Removed 2], a_size = 2, discardedNonRedundantClauses = 2\<rparr>)"
proof -
  have l: "ageLimited exampleLimits" "weightLimited exampleLimits"
    by (simp_all add: exampleLimits_def)
  have a: "age (exampleClauses 2) = ageLimit exampleLimits"
    by (simp add: exampleLimits_def exampleClauses_def)
  have m: "2 \<in> set [0, 1, 2, 1, 3, 2::nat]" by simp
  from Active_discard_predicate [OF example_pass l, of 2] a m
  have "(2 \<in> set (removedDuring exampleActive
              \<lparr>events = [Removed 3, Removed 2], a_size = 2, discardedNonRedundantClauses = 2\<rparr>))
        = (weight (exampleClauses 2) - int (maxSelectedLiteralWeight (exampleClauses 2))
             \<ge> weightLimit exampleLimits)"
    by blast
  moreover have "2 \<in> set (removedDuring exampleActive
              \<lparr>events = [Removed 3, Removed 2], a_size = 2, discardedNonRedundantClauses = 2\<rparr>)"
    by (simp add: removedDuring_def exampleActive_def)
  ultimately show ?thesis using example_pass l a m by blast
qed

text \<open>
  C7. The removals of one pass are batched. The walk collects the clauses to remove, each
  once, in the order of their first visit, and touches neither the container nor its
  events; the second loop then fires \<^verbatim>\<open>removedEvent\<close> for them in the reverse of that
  order.
\<close>

theorem Active_discard_batched:
  assumes "Active_onLimitsUpdated H LIMITS_TIGHTENED (Some rit) limits s = Inr s'"
      and "ageLimited limits" and "weightLimited limits"
  shows "\<exists>checked toRemove.
           walk H (ageLimit limits) (weightLimit limits) rit ({}, []) = Inr (checked, toRemove)
           \<and> distinct toRemove
           \<and> toRemove = filter (\<lambda>cl. cl \<in> set toRemove) (firstVisits {} rit)
           \<and> s' = removeLoop toRemove s
           \<and> events s' = events s @ map Removed (rev toRemove)
           \<and> removedDuring s s' = rev toRemove"
proof -
  let ?al = "ageLimit limits" and ?wl = "weightLimit limits"
  from onLimitsUpdated_tightened [OF assms] obtain checked toRemove where
    w: "walk H ?al ?wl rit ({}, []) = Inr (checked, toRemove)"
    and s': "s' = removeLoop toRemove s" by blast
  have t: "toRemove = filter (discards H ?al ?wl) (firstVisits {} rit)"
    using walk_collects [OF w] by simp
  have d: "distinct toRemove" by (simp add: t distinct_firstVisits)
  have "filter (\<lambda>cl. cl \<in> set toRemove) (firstVisits {} rit) =
        filter (discards H ?al ?wl) (firstVisits {} rit)"
    by (rule filter_cong) (auto simp: t)
  with t have o: "toRemove = filter (\<lambda>cl. cl \<in> set toRemove) (firstVisits {} rit)" by simp
  show ?thesis using w d o s' by (auto simp: removeLoop_events removedDuring_removeLoop)
qed

theorem Active_discard_batched_witness:
  "Active_onLimitsUpdated exampleClauses LIMITS_TIGHTENED (Some [0, 1, 2, 1, 3, 2]) exampleLimits
     exampleActive
   = Inr \<lparr>events = [Removed 3, Removed 2], a_size = 2, discardedNonRedundantClauses = 2\<rparr>
   \<and> ageLimited exampleLimits \<and> weightLimited exampleLimits
   \<and> walk exampleClauses (ageLimit exampleLimits) (weightLimit exampleLimits) [0, 1, 2, 1, 3, 2]
       ({}, []) = Inr ({2, 3}, [2, 3])
   \<and> events \<lparr>events = [Removed 3, Removed 2], a_size = 2, discardedNonRedundantClauses = 2\<rparr>
       = events exampleActive @ map Removed (rev [2, 3])"
proof -
  have l: "ageLimited exampleLimits" "weightLimited exampleLimits"
    by (simp_all add: exampleLimits_def)
  have w: "walk exampleClauses (ageLimit exampleLimits) (weightLimit exampleLimits)
             [0, 1, 2, 1, 3, 2] ({}, []) = Inr ({2, 3}, [2, 3])"
    by code_simp
  from Active_discard_batched [OF example_pass l] obtain checked toRemove where
    a: "walk exampleClauses (ageLimit exampleLimits) (weightLimit exampleLimits)
          [0, 1, 2, 1, 3, 2] ({}, []) = Inr (checked, toRemove)" and
    b: "events \<lparr>events = [Removed 3, Removed 2], a_size = 2, discardedNonRedundantClauses = 2\<rparr>
          = events exampleActive @ map Removed (rev toRemove)"
    by blast
  from a [unfolded w] have "toRemove = [2, 3]" by simp
  with b show ?thesis using example_pass l w by blast
qed

section \<open>Properties of the constructor\<close>

lemma inUnit_Fin: "fle (Fin 0) c \<Longrightarrow> fle c (Fin 1) \<Longrightarrow> \<exists>x. c = Fin x \<and> 0 \<le> x \<and> x \<le> 1"
  by (cases c) simp_all

lemma fle_trans: "fle x y \<Longrightarrow> fle y z \<Longrightarrow> fle x z"
  by (cases x; cases y; cases z) simp_all

lemma checkLoop_fail:
  "i < length rs \<Longrightarrow> i < length cuts \<Longrightarrow> \<not> cutoffOk rs cuts i
   \<Longrightarrow> \<exists>m. checkLoop rs cuts i = Some (USER_ERROR m)"
  by (subst checkLoop.simps) (auto simp: Let_def cutoffOk_def)

lemma checkLoop_pass:
  "i < length rs \<Longrightarrow> i < length cuts \<Longrightarrow> cutoffOk rs cuts i
   \<Longrightarrow> checkLoop rs cuts i = checkLoop rs cuts (Suc i)"
  by (subst checkLoop.simps) (auto simp: Let_def cutoffOk_def)

lemma checkLoop_end: "\<not> i < length rs \<Longrightarrow> checkLoop rs cuts i = None"
  by (subst checkLoop.simps) simp

lemma checkLoop_None:
  "length cuts = length rs \<Longrightarrow>
   (checkLoop rs cuts i = None) = (\<forall>j. i \<le> j \<and> j < length rs \<longrightarrow> cutoffOk rs cuts j)"
proof (induction "length rs - i" arbitrary: i)
  case 0
  then show ?case by (auto simp: checkLoop_end)
next
  case (Suc n)
  then have lt: "i < length rs" and lt': "i < length cuts" by simp_all
  show ?case
  proof (cases "cutoffOk rs cuts i")
    case False
    from checkLoop_fail [OF lt lt' False] have "checkLoop rs cuts i \<noteq> None" by auto
    moreover have "\<not> (\<forall>j. i \<le> j \<and> j < length rs \<longrightarrow> cutoffOk rs cuts j)"
      using False lt by blast
    ultimately show ?thesis by blast
  next
    case True
    have "n = length rs - Suc i" using Suc.hyps(2) by simp
    from Suc.hyps(1) [OF this Suc.prems]
    have IH: "(checkLoop rs cuts (Suc i) = None) =
              (\<forall>j. Suc i \<le> j \<and> j < length rs \<longrightarrow> cutoffOk rs cuts j)" .
    have "(\<forall>j. i \<le> j \<and> j < length rs \<longrightarrow> cutoffOk rs cuts j) =
          (\<forall>j. Suc i \<le> j \<and> j < length rs \<longrightarrow> cutoffOk rs cuts j)"
      using True by (metis Suc_leI le_neq_implies_less Suc_leD)
    with checkLoop_pass [OF lt lt' True] IH show ?thesis by simp
  qed
qed

lemma checkLoop_user:
  "length cuts = length rs \<Longrightarrow> checkLoop rs cuts i = Some e \<Longrightarrow> \<exists>m. e = USER_ERROR m"
proof (induction "length rs - i" arbitrary: i)
  case 0
  then show ?case by (simp add: checkLoop_end)
next
  case (Suc n)
  then have lt: "i < length rs" and lt': "i < length cuts" by simp_all
  show ?case
  proof (cases "cutoffOk rs cuts i")
    case False
    from checkLoop_fail [OF lt lt' False] Suc.prems(2) show ?thesis by auto
  next
    case True
    have "n = length rs - Suc i" using Suc.hyps(2) by simp
    from Suc.hyps(1) [OF this Suc.prems(1)] checkLoop_pass [OF lt lt' True] Suc.prems(2)
    show ?thesis by simp
  qed
qed

lemma all_cutoffOk:
  assumes "length cuts = length rs"
  shows "(\<forall>j. j < length rs \<longrightarrow> cutoffOk rs cuts j) =
         (\<not> ((\<exists>r \<in> set rs. r \<le> 0)
             \<or> (\<exists>c \<in> set cuts. \<not> (fle (Fin 0) c \<and> fle c (Fin 1)))
             \<or> (\<exists>i. 0 < i \<and> i < length cuts \<and> \<not> flt_less (cuts ! (i - 1)) (cuts ! i))))"
proof
  assume ok: "\<forall>j. j < length rs \<longrightarrow> cutoffOk rs cuts j"
  have a: "\<not> (\<exists>r \<in> set rs. r \<le> 0)"
    using ok by (fastforce simp: in_set_conv_nth cutoffOk_def)
  have b: "\<forall>c \<in> set cuts. fle (Fin 0) c \<and> fle c (Fin 1)"
    using ok assms by (fastforce simp: in_set_conv_nth cutoffOk_def)
  have c: "flt_less (cuts ! (i - 1)) (cuts ! i)" if "0 < i" "i < length cuts" for i
  proof -
    from that assms ok have n: "\<not> fle (cuts ! i) (cuts ! (i - 1))"
      by (simp add: cutoffOk_def)
    from that b obtain x y where "cuts ! i = Fin x" "cuts ! (i - 1) = Fin y"
      by (metis inUnit_Fin nth_mem less_imp_diff_less)
    with n show ?thesis by (simp add: flt_less_def)
  qed
  show "\<not> ((\<exists>r \<in> set rs. r \<le> 0)
             \<or> (\<exists>c \<in> set cuts. \<not> (fle (Fin 0) c \<and> fle c (Fin 1)))
             \<or> (\<exists>i. 0 < i \<and> i < length cuts \<and> \<not> flt_less (cuts ! (i - 1)) (cuts ! i)))"
    using a b c by blast
next
  assume n: "\<not> ((\<exists>r \<in> set rs. r \<le> 0)
             \<or> (\<exists>c \<in> set cuts. \<not> (fle (Fin 0) c \<and> fle c (Fin 1)))
             \<or> (\<exists>i. 0 < i \<and> i < length cuts \<and> \<not> flt_less (cuts ! (i - 1)) (cuts ! i)))"
  show "\<forall>j. j < length rs \<longrightarrow> cutoffOk rs cuts j"
  proof (intro allI impI)
    fix j assume j: "j < length rs"
    then have "0 < rs ! j" using n by (meson nth_mem not_le)
    moreover have "fle (Fin 0) (cuts ! j) \<and> fle (cuts ! j) (Fin 1)"
      using n j assms by (metis nth_mem)
    moreover have "\<not> fle (cuts ! j) (cuts ! (j - 1))" if "0 < j"
      using n j assms that by (auto simp: flt_less_def)
    ultimately show "cutoffOk rs cuts j" by (simp add: cutoffOk_def)
  qed
qed

text \<open>
  C5. When both option strings parse, the constructor ends in \<^verbatim>\<open>USER_ERROR\<close> exactly
  when the parsed values break a rule of the configuration (fewer than two ratios, a
  different number of ratios and cutoffs, a ratio that is not positive, a cutoff outside
  [0,1], cutoffs that do not strictly increase, a last cutoff other than 1.0); otherwise it
  returns a container with empty queues and no event fired.
\<close>

theorem constructor_fails_iff_rules_violated:
  assumes "parseAll stoi (getlines [] (splitQueueRatios options)) = Some rs"
      and "parseAll stof (getlines [] (splitQueueCutoffs options)) = Some cuts"
  shows "((\<exists>m. PredicateSplit_constructor stoi stof outermost options = Inl (USER_ERROR m))
            \<longleftrightarrow> violatesRules rs cuts)
       \<and> (\<not> violatesRules rs cuts \<longrightarrow>
            (\<exists>s. PredicateSplit_constructor stoi stof outermost options = Inr s
                 \<and> events s = [] \<and> list_all aw_isEmpty (queues s) \<and> cutoffs s = cuts))"
proof (cases "length rs < 2 \<or> length rs \<noteq> length cuts")
  case True
  then have "violatesRules rs cuts" by (auto simp: violatesRules_def)
  moreover have "\<exists>m. PredicateSplit_constructor stoi stof outermost options = Inl (USER_ERROR m)"
    using True assms by (auto simp: PredicateSplit_constructor_def)
  ultimately show ?thesis by blast
next
  case False
  then have len: "length cuts = length rs" and two: "\<not> length rs < 2" by auto
  have v: "violatesRules rs cuts = (checkLoop rs cuts 0 \<noteq> None \<or> last cuts \<noteq> Fin 1)"
    using checkLoop_None [OF len, of 0] all_cutoffOk [OF len] two len
    by (auto simp: violatesRules_def)
  show ?thesis
  proof (cases "checkLoop rs cuts 0")
    case None
    then show ?thesis using v assms len two
      by (auto simp: PredicateSplit_constructor_def Let_def list_all_iff aw_isEmpty_def AW_new_def)
  next
    case (Some e)
    with checkLoop_user [OF len Some] v assms len two show ?thesis
      by (auto simp: PredicateSplit_constructor_def)
  qed
qed


lemma example_parse_ratios:
  "parseAll exampleStoi (getlines [] (splitQueueRatios exampleOptions)) = Some [4, 1]"
  by (simp add: exampleOptions_def exampleStoi_def)

lemma example_parse_cutoffs:
  "parseAll exampleStof (getlines [] (splitQueueCutoffs exampleOptions)) = Some [Fin 0.5, Fin 1]"
  by (simp add: exampleOptions_def exampleStof_def)

lemma example_parse_bad_ratios:
  "parseAll exampleStoi (getlines [] (splitQueueRatios (exampleOptions\<lparr>splitQueueRatios := ''4,0''\<rparr>)))
     = Some [4, 0]"
  by (simp add: exampleOptions_def exampleStoi_def)

lemma example_parse_cutoffs':
  "parseAll exampleStof (getlines [] (splitQueueCutoffs (exampleOptions\<lparr>splitQueueRatios := ''4,0''\<rparr>)))
     = Some [Fin 0.5, Fin 1]"
  by (simp add: exampleOptions_def exampleStof_def)

theorem constructor_fails_iff_rules_violated_witness:
  "parseAll exampleStoi (getlines [] (splitQueueRatios (exampleOptions\<lparr>splitQueueRatios := ''4,0''\<rparr>)))
     = Some [4, 0]
   \<and> parseAll exampleStof (getlines [] (splitQueueCutoffs (exampleOptions\<lparr>splitQueueRatios := ''4,0''\<rparr>)))
     = Some [Fin 0.5, Fin 1]
   \<and> violatesRules [4, 0] [Fin 0.5, Fin 1]
   \<and> (\<exists>m. PredicateSplit_constructor exampleStoi exampleStof True
             (exampleOptions\<lparr>splitQueueRatios := ''4,0''\<rparr>) = Inl (USER_ERROR m))"
proof -
  have v: "violatesRules [4, 0] [Fin 0.5, Fin 1]" by (simp add: violatesRules_def)
  from constructor_fails_iff_rules_violated
         [OF example_parse_bad_ratios example_parse_cutoffs', of True] v
  show ?thesis using example_parse_bad_ratios example_parse_cutoffs' by blast
qed

lemma cutoffLoop_Some:
  "(cutoffLoop cuts n i = Some k) =
   (i \<le> k \<and> k < length cuts \<and> fle n (cuts ! k) \<and> (\<forall>j. i \<le> j \<and> j < k \<longrightarrow> \<not> fle n (cuts ! j)))"
proof (induction "length cuts - i" arbitrary: i)
  case 0
  then have "cutoffLoop cuts n i = None" by (subst cutoffLoop.simps) simp
  with 0 show ?case by auto
next
  case (Suc m)
  then have lt: "i < length cuts" by simp
  show ?case
  proof (cases "fle n (cuts ! i)")
    case True
    then have "cutoffLoop cuts n i = Some i" using lt by (subst cutoffLoop.simps) simp
    moreover have "(i \<le> k \<and> k < length cuts \<and> fle n (cuts ! k) \<and>
        (\<forall>j. i \<le> j \<and> j < k \<longrightarrow> \<not> fle n (cuts ! j))) = (k = i)"
    proof
      assume a: "i \<le> k \<and> k < length cuts \<and> fle n (cuts ! k) \<and>
        (\<forall>j. i \<le> j \<and> j < k \<longrightarrow> \<not> fle n (cuts ! j))"
      show "k = i"
      proof (rule ccontr)
        assume "k \<noteq> i"
        with a have "i < k" by simp
        with a True show False by blast
      qed
    next
      assume "k = i"
      with True lt show "i \<le> k \<and> k < length cuts \<and> fle n (cuts ! k) \<and>
        (\<forall>j. i \<le> j \<and> j < k \<longrightarrow> \<not> fle n (cuts ! j))" by auto
    qed
    ultimately show ?thesis by auto
  next
    case False
    then have step: "cutoffLoop cuts n i = cutoffLoop cuts n (Suc i)"
      using lt by (subst cutoffLoop.simps) simp
    have "m = length cuts - Suc i" using Suc.hyps(2) by simp
    from Suc.hyps(1) [OF this]
    have IH: "(cutoffLoop cuts n (Suc i) = Some k) =
      (Suc i \<le> k \<and> k < length cuts \<and> fle n (cuts ! k) \<and>
         (\<forall>j. Suc i \<le> j \<and> j < k \<longrightarrow> \<not> fle n (cuts ! j)))" .
    have "(i \<le> k \<and> k < length cuts \<and> fle n (cuts ! k) \<and>
            (\<forall>j. i \<le> j \<and> j < k \<longrightarrow> \<not> fle n (cuts ! j))) =
          (Suc i \<le> k \<and> k < length cuts \<and> fle n (cuts ! k) \<and>
            (\<forall>j. Suc i \<le> j \<and> j < k \<longrightarrow> \<not> fle n (cuts ! j)))"
      using False by (metis Suc_leD Suc_leI le_neq_implies_less)
    with step IH show ?thesis by simp
  qed
qed

lemma cutoffLoop_None:
  "(cutoffLoop cuts n i = None) = (\<forall>j. i \<le> j \<and> j < length cuts \<longrightarrow> \<not> fle n (cuts ! j))"
proof (induction "length cuts - i" arbitrary: i)
  case 0
  then have "cutoffLoop cuts n i = None" by (subst cutoffLoop.simps) simp
  with 0 show ?case by auto
next
  case (Suc m)
  then have lt: "i < length cuts" by simp
  show ?case
  proof (cases "fle n (cuts ! i)")
    case True
    then have "cutoffLoop cuts n i = Some i" using lt by (subst cutoffLoop.simps) simp
    with True lt show ?thesis by auto
  next
    case False
    then have step: "cutoffLoop cuts n i = cutoffLoop cuts n (Suc i)"
      using lt by (subst cutoffLoop.simps) simp
    have "m = length cuts - Suc i" using Suc.hyps(2) by simp
    from Suc.hyps(1) [OF this]
    have IH: "(cutoffLoop cuts n (Suc i) = None) =
      (\<forall>j. Suc i \<le> j \<and> j < length cuts \<longrightarrow> \<not> fle n (cuts ! j))" .
    have "(\<forall>j. i \<le> j \<and> j < length cuts \<longrightarrow> \<not> fle n (cuts ! j)) =
          (\<forall>j. Suc i \<le> j \<and> j < length cuts \<longrightarrow> \<not> fle n (cuts ! j))"
      using False by (metis Suc_leD Suc_leI le_neq_implies_less)
    with step IH show ?thesis by simp
  qed
qed

section \<open>What the constructor returns and what the loops compute\<close>

lemma constructor_Inr:
  assumes "PredicateSplit_constructor stoi stof outermost options = Inr s0"
  obtains rs cuts where
    "parseAll stoi (getlines [] (splitQueueRatios options)) = Some rs"
    "parseAll stof (getlines [] (splitQueueCutoffs options)) = Some cuts"
    "2 \<le> length rs" "length cuts = length rs"
    "\<forall>j. j < length rs \<longrightarrow> cutoffOk rs cuts j"
    "last cuts = Fin 1"
    "s0 = \<lparr>events = [], isOutermost = outermost, opt = options,
           queues = map (\<lambda>r. AW_new) rs,
           ratios = map (\<lambda>r. cdiv (lcmLoop 1 rs) r) rs,
           cutoffs = cuts,
           balances = map (\<lambda>r. 0) rs,
           simulationBalances = []\<rparr>"
proof -
  from assms obtain rs where rs: "parseAll stoi (getlines [] (splitQueueRatios options)) = Some rs"
    by (auto simp: PredicateSplit_constructor_def split: option.splits)
  from assms rs obtain cuts where
    cuts: "parseAll stof (getlines [] (splitQueueCutoffs options)) = Some cuts"
    by (auto simp: PredicateSplit_constructor_def split: option.splits)
  from assms rs cuts have two: "2 \<le> length rs" and len: "length cuts = length rs"
    by (auto simp: PredicateSplit_constructor_def split: if_splits)
  from assms rs cuts two len have chk: "checkLoop rs cuts 0 = None"
    by (auto simp: PredicateSplit_constructor_def split: if_splits option.splits)
  from assms rs cuts two len chk have lst: "last cuts = Fin 1"
    by (auto simp: PredicateSplit_constructor_def split: if_splits)
  from assms rs cuts two len chk lst
  have s0: "s0 = \<lparr>events = [], isOutermost = outermost, opt = options,
           queues = map (\<lambda>r. AW_new) rs,
           ratios = map (\<lambda>r. cdiv (lcmLoop 1 rs) r) rs,
           cutoffs = cuts,
           balances = map (\<lambda>r. 0) rs,
           simulationBalances = []\<rparr>"
    by (simp add: PredicateSplit_constructor_def Let_def)
  from chk have "\<forall>j. j < length rs \<longrightarrow> cutoffOk rs cuts j"
    using checkLoop_None [OF len, of 0] by simp
  with rs cuts two len lst s0 show thesis using that by blast
qed

lemma forQueuesFrom_length [simp]: "length (forQueuesFrom f qs i) = length qs"
proof (induction "length qs - i" arbitrary: qs i)
  case 0
  then show ?case by (subst forQueuesFrom.simps) simp
next
  case (Suc n)
  then have lt: "i < length qs" by simp
  have "n = length (qs[i := f (qs ! i)]) - Suc i" using Suc.hyps(2) by simp
  from Suc.hyps(1) [OF this] lt show ?case by (subst forQueuesFrom.simps) simp
qed









lemma anyQueueFrom_iff:
  "anyQueueFrom admits qs i = (\<exists>j. i \<le> j \<and> j < length qs \<and> admits (qs ! j))"
proof (induction "length qs - i" arbitrary: i)
  case 0
  then have "\<not> anyQueueFrom admits qs i" by (subst anyQueueFrom.simps) simp
  with 0 show ?case by auto
next
  case (Suc n)
  then have lt: "i < length qs" by simp
  show ?case
  proof (cases "admits (qs ! i)")
    case True
    then have "anyQueueFrom admits qs i" using lt by (subst anyQueueFrom.simps) simp
    with True lt show ?thesis by auto
  next
    case False
    then have step: "anyQueueFrom admits qs i = anyQueueFrom admits qs (Suc i)"
      using lt by (subst anyQueueFrom.simps) simp
    have "n = length qs - Suc i" using Suc.hyps(2) by simp
    from Suc.hyps(1) [OF this]
    have IH: "anyQueueFrom admits qs (Suc i) = (\<exists>j. Suc i \<le> j \<and> j < length qs \<and> admits (qs ! j))" .
    have "(\<exists>j. Suc i \<le> j \<and> j < length qs \<and> admits (qs ! j)) =
          (\<exists>j. i \<le> j \<and> j < length qs \<and> admits (qs ! j))"
      using False by (metis Suc_leD Suc_leI le_neq_implies_less)
    with step IH show ?thesis by simp
  qed
qed


lemma popSelected_Inr:
  assumes "PredicateSplit_popSelected sel s = Inr (cl, s')"
  obtains k where
    "min_element (balances s) < length (balances s)"
    "min_element (balances s) < length (ratios s)"
    "chooseQueue aw_isEmpty (queues s) (min_element (balances s)) = Some k"
    "cl = sel (queues s ! k)"
    "s' = s\<lparr>balances := (balances s)[min_element (balances s) :=
                wrap32 (balances s ! min_element (balances s) + ratios s ! min_element (balances s))],
             queues := forQueuesFrom (aw_remove cl)
                         ((queues s)[k := snd (aw_popSelected sel (queues s ! k))]) 0,
             events := events s @ [Selected cl]\<rparr>"
  using assms
  by (auto simp: PredicateSplit_popSelected_def Let_def aw_popSelected_def
           split: if_splits option.splits)

lemma simulationPopSelected_Inr:
  assumes "PredicateSplit_simulationPopSelected sel s = Inr s'"
  obtains k where
    "min_element (simulationBalances s) < length (simulationBalances s)"
    "min_element (simulationBalances s) < length (ratios s)"
    "chooseQueue (\<lambda>q. \<not> aw_simulationHasNext q) (queues s) (min_element (simulationBalances s))
       = Some k"
    "s' = s\<lparr>simulationBalances := (simulationBalances s)[min_element (simulationBalances s) :=
                wrap32 (simulationBalances s ! min_element (simulationBalances s)
                          + ratios s ! min_element (simulationBalances s))],
             queues := (queues s)[k := aw_simulationPopSelected sel (queues s ! k)]\<rparr>"
  using assms
  by (auto simp: PredicateSplit_simulationPopSelected_def Let_def
           split: if_splits option.splits)

lemma add_Inr:
  assumes "PredicateSplit_add H cl s = Inr s'"
  obtains b where
    "bestQueueHeuristics s (inference (H cl)) = Some b"
    "s' = s\<lparr>queues := forQueuesFrom (aw_add cl) (queues s) b,
             events := (if isOutermost s then events s @ [Added cl] else events s)\<rparr>"
  using assms
  by (auto simp: PredicateSplit_add_def Let_def split: if_splits option.splits)

lemma remove_Inr:
  assumes "PredicateSplit_remove H cl s = Inr s'"
  obtains b where
    "bestQueueHeuristics s (inference (H cl)) = Some b"
    "s' = s\<lparr>queues := forQueuesFrom (aw_remove cl) (queues s) b,
             events := (if isOutermost s then events s @ [Removed cl] else events s)\<rparr>"
  using assms
  by (auto simp: PredicateSplit_remove_def Let_def split: if_splits option.splits)

lemma reachable_sameConfiguration:
  "PredicateSplit_reachable H s0 s \<Longrightarrow> sameConfiguration s0 s"
proof (induction rule: PredicateSplit_reachable.induct)
  case built
  show ?case by (simp add: sameConfiguration_def)
next
  case (added s cl s')
  from added.hyps(2) obtain b where
    "s' = s\<lparr>queues := forQueuesFrom (aw_add cl) (queues s) b,
             events := (if isOutermost s then events s @ [Added cl] else events s)\<rparr>"
    by (rule add_Inr)
  with added.IH show ?case by (simp add: sameConfiguration_def)
next
  case (removed s cl s')
  from removed.hyps(2) obtain b where
    "s' = s\<lparr>queues := forQueuesFrom (aw_remove cl) (queues s) b,
             events := (if isOutermost s then events s @ [Removed cl] else events s)\<rparr>"
    by (rule remove_Inr)
  with removed.IH show ?case by (simp add: sameConfiguration_def)
next
  case (popped s sel cl s')
  from popped.hyps(2) obtain k where
    "s' = s\<lparr>balances := (balances s)[min_element (balances s) :=
                wrap32 (balances s ! min_element (balances s) + ratios s ! min_element (balances s))],
             queues := forQueuesFrom (aw_remove cl)
                         ((queues s)[k := snd (aw_popSelected sel (queues s ! k))]) 0,
             events := events s @ [Selected cl]\<rparr>"
    by (rule popSelected_Inr)
  with popped.IH show ?case by (simp add: sameConfiguration_def)
next
  case (simulationStarted s)
  then show ?case by (simp add: sameConfiguration_def PredicateSplit_simulationInit_def)
next
  case (simulationPopped s sel s')
  from simulationPopped.hyps(2) obtain k where
    "s' = s\<lparr>simulationBalances := (simulationBalances s)[min_element (simulationBalances s) :=
                wrap32 (simulationBalances s ! min_element (simulationBalances s)
                          + ratios s ! min_element (simulationBalances s))],
             queues := (queues s)[k := aw_simulationPopSelected sel (queues s ! k)]\<rparr>"
    by (rule simulationPopSelected_Inr)
  with simulationPopped.IH show ?case by (simp add: sameConfiguration_def)
qed


section \<open>Properties of the queue dispatch\<close>

lemma example_checkLoop: "checkLoop [4, 1] [Fin (1 / 2), Fin 1] 0 = None"
  by (simp add: checkLoop_None cutoffOk_def less_Suc_eq all_conj_distrib)

lemma example_lcm: "computeLCM (computeLCM 1 4) 1 = 4"
  by code_simp

lemma example_constructor:
  "PredicateSplit_constructor exampleStoi exampleStof True exampleOptions = Inr exampleContainer"
  using example_parse_ratios example_parse_cutoffs
  by (simp add: PredicateSplit_constructor_def example_checkLoop example_lcm exampleContainer_def
        cdiv_def Let_def)

text \<open>
  C10. In every state of a container the constructor has built (its cutoffs and options
  never change): when the niceness computed
  for an inference lies in [0,1], \<^verbatim>\<open>bestQueueHeuristics\<close> returns the least index whose
  cutoff is not below the niceness (the last cutoff is 1.0, so the end of the function is not
  reached); when the niceness is not at most 1, no \<^verbatim>\<open>return\<close> is executed.
\<close>

theorem bestQueueHeuristics_least_cutoff:
  assumes "PredicateSplit_constructor stoi stof outermost options = Inr s0"
      and "sameConfiguration s0 s"
  shows "(fle (Fin 0) (niceness (splitQueueFadeIn (opt s)) infer)
            \<and> fle (niceness (splitQueueFadeIn (opt s)) infer) (Fin 1)
          \<longrightarrow> (\<exists>i. bestQueueHeuristics s infer = Some i \<and> i < length (cutoffs s)
                 \<and> fle (niceness (splitQueueFadeIn (opt s)) infer) (cutoffs s ! i)
                 \<and> (\<forall>j<i. \<not> fle (niceness (splitQueueFadeIn (opt s)) infer) (cutoffs s ! j))))
       \<and> (\<not> fle (niceness (splitQueueFadeIn (opt s)) infer) (Fin 1)
          \<longrightarrow> bestQueueHeuristics s infer = None)"
proof -
  let ?n = "niceness (splitQueueFadeIn (opt s)) infer"
  from assms(1) obtain rs cuts where
    two: "2 \<le> length rs" and len: "length cuts = length rs"
    and ok: "\<forall>j. j < length rs \<longrightarrow> cutoffOk rs cuts j"
    and lst: "last cuts = Fin 1"
    and s0: "cutoffs s0 = cuts"
    by (rule constructor_Inr) simp
  from assms(2) s0 have c: "cutoffs s = cuts"
    by (simp add: sameConfiguration_def)
  have ne: "cuts \<noteq> []" using two len by auto
  have inRange: "\<exists>i. bestQueueHeuristics s infer = Some i \<and> i < length (cutoffs s)
                 \<and> fle ?n (cutoffs s ! i) \<and> (\<forall>j<i. \<not> fle ?n (cutoffs s ! j))"
    if "fle ?n (Fin 1)"
  proof -
    from ne lst have "cuts ! (length cuts - 1) = Fin 1" by (simp add: last_conv_nth)
    with that ne have "\<not> (\<forall>j. 0 \<le> j \<and> j < length cuts \<longrightarrow> \<not> fle ?n (cuts ! j))"
      by (metis diff_less length_greater_0_conv less_one zero_le)
    then obtain i where "cutoffLoop cuts ?n 0 = Some i"
      using cutoffLoop_None [of cuts ?n 0] by auto
    then show ?thesis using c by (auto simp: bestQueueHeuristics_def cutoffLoop_Some)
  qed
  have above: "bestQueueHeuristics s infer = None" if "\<not> fle ?n (Fin 1)"
  proof -
    have "\<not> fle ?n (cuts ! j)" if j: "j < length cuts" for j
    proof
      assume "fle ?n (cuts ! j)"
      moreover from ok j len have "fle (cuts ! j) (Fin 1)" by (simp add: cutoffOk_def)
      ultimately have "fle ?n (Fin 1)" by (rule fle_trans)
      with \<open>\<not> fle ?n (Fin 1)\<close> show False by simp
    qed
    then show ?thesis using c by (simp add: bestQueueHeuristics_def cutoffLoop_None)
  qed
  show ?thesis using inRange above by blast
qed

lemma example_round32_eight_tenths: "round32 (4 / 5) = Fin (13421773 / 16777216)"
  by code_simp

lemma example_round32_seven_fifths: "round32 (7 / 5) = Fin (11744051 / 8388608)"
  by code_simp

lemma example_round32_seven_tenths: "round32 (7 / 10) = Fin (11744051 / 16777216)"
  by code_simp

lemma example_round32_three_sevenths: "round32 (3 / 7) = Fin (14380471 / 33554432)"
  by code_simp

lemma example_niceness_in_range:
  "niceness (splitQueueFadeIn (opt exampleContainer)) \<lparr>th_ancestors = 4, all_ancestors = 5\<rparr>
     = Fin (13421773 / 16777216)"
  by (simp add: niceness_def exampleContainer_def exampleOptions_def
        example_round32_eight_tenths)

lemma example_niceness_above:
  "niceness (splitQueueFadeIn (opt exampleContainer)) \<lparr>th_ancestors = 7, all_ancestors = 5\<rparr>
     = Fin (11744051 / 8388608)"
  by (simp add: niceness_def exampleContainer_def exampleOptions_def fdiv_def
        example_round32_seven_fifths)

theorem bestQueueHeuristics_least_cutoff_witness:
  "PredicateSplit_constructor exampleStoi exampleStof True exampleOptions = Inr exampleContainer
   \<and> sameConfiguration exampleContainer exampleContainer
   \<and> fle (Fin 0) (Fin (13421773 / 16777216)) \<and> fle (Fin (13421773 / 16777216)) (Fin 1)
   \<and> (\<exists>i. bestQueueHeuristics exampleContainer \<lparr>th_ancestors = 4, all_ancestors = 5\<rparr> = Some i
          \<and> i < length (cutoffs exampleContainer)
          \<and> fle (Fin (13421773 / 16777216)) (cutoffs exampleContainer ! i))
   \<and> \<not> fle (Fin (11744051 / 8388608)) (Fin 1)
   \<and> bestQueueHeuristics exampleContainer \<lparr>th_ancestors = 7, all_ancestors = 5\<rparr> = None"
proof -
  have r: "sameConfiguration exampleContainer exampleContainer"
    by (simp add: sameConfiguration_def)
  have a: "fle (Fin 0) (Fin (13421773 / 16777216)) \<and> fle (Fin (13421773 / 16777216)) (Fin 1)"
    by simp
  have b: "\<not> fle (Fin (11744051 / 8388608)) (Fin 1)" by simp
  from bestQueueHeuristics_least_cutoff
         [OF example_constructor r, of "\<lparr>th_ancestors = 4, all_ancestors = 5\<rparr>"] a
  have c: "\<exists>i. bestQueueHeuristics exampleContainer \<lparr>th_ancestors = 4, all_ancestors = 5\<rparr> = Some i
          \<and> i < length (cutoffs exampleContainer)
          \<and> fle (Fin (13421773 / 16777216)) (cutoffs exampleContainer ! i)"
    unfolding example_niceness_in_range by blast
  from bestQueueHeuristics_least_cutoff
         [OF example_constructor r, of "\<lparr>th_ancestors = 7, all_ancestors = 5\<rparr>"] b
  have d: "bestQueueHeuristics exampleContainer \<lparr>th_ancestors = 7, all_ancestors = 5\<rparr> = None"
    unfolding example_niceness_above by blast
  show ?thesis using example_constructor r a b c d by blast
qed

text \<open>
  C4. With the fade-in option set, the niceness that \<^verbatim>\<open>bestQueueHeuristics\<close> compares with
  the cutoffs is 0.0 when \<open>th_ancestors \<le> 2\<close>, 0.5 when \<open>th_ancestors = 3\<close> and
  \<open>all_ancestors \<le> 6\<close>, 0.8 when \<open>th_ancestors = 4\<close> and \<open>all_ancestors \<le> 5\<close>, and the
  ratio \<open>th_ancestors / all_ancestors\<close> in every other case. The values are those of a
  \<^verbatim>\<open>float\<close> variable: the constant 0.8 and the ratio are held rounded to binary32.
\<close>

theorem fadeIn_niceness:
  assumes "splitQueueFadeIn (opt s)"
  shows "bestQueueHeuristics s infer = cutoffLoop (cutoffs s) (niceness True infer) 0
       \<and> (th_ancestors infer \<le> 2 \<longrightarrow> niceness True infer = Fin 0)
       \<and> (\<not> th_ancestors infer \<le> 2 \<and> th_ancestors infer = 3 \<and> all_ancestors infer \<le> 6
            \<longrightarrow> niceness True infer = Fin 0.5)
       \<and> (\<not> th_ancestors infer \<le> 2 \<and> th_ancestors infer = 4 \<and> all_ancestors infer \<le> 5
            \<longrightarrow> niceness True infer = round32 0.8)
       \<and> (\<not> th_ancestors infer \<le> 2
          \<and> \<not> (th_ancestors infer = 3 \<and> all_ancestors infer \<le> 6)
          \<and> \<not> (th_ancestors infer = 4 \<and> all_ancestors infer \<le> 5)
            \<longrightarrow> niceness True infer = fdiv (th_ancestors infer) (all_ancestors infer)
                \<and> (all_ancestors infer \<noteq> 0 \<longrightarrow>
                     niceness True infer = round32 (th_ancestors infer / all_ancestors infer)))"
  using assms by (auto simp: bestQueueHeuristics_def niceness_def Let_def fdiv_def)

lemma example_seventy_bestQueue:
  "cutoffLoop (cutoffs exampleSeventy) (Fin (11744051 / 16777216)) 0 = Some 0"
  by (simp add: exampleSeventy_def cutoffLoop.simps)

theorem fadeIn_niceness_witness:
  "splitQueueFadeIn (opt exampleSeventy)
   \<and> niceness True \<lparr>th_ancestors = 2, all_ancestors = 3\<rparr> = Fin 0
   \<and> niceness True \<lparr>th_ancestors = 3, all_ancestors = 6\<rparr> = Fin 0.5
   \<and> niceness True \<lparr>th_ancestors = 4, all_ancestors = 5\<rparr> = Fin (13421773 / 16777216)
   \<and> niceness True \<lparr>th_ancestors = 3, all_ancestors = 7\<rparr> = Fin (14380471 / 33554432)
   \<and> niceness True \<lparr>th_ancestors = 7, all_ancestors = 10\<rparr> = Fin (11744051 / 16777216)
   \<and> bestQueueHeuristics exampleSeventy \<lparr>th_ancestors = 7, all_ancestors = 10\<rparr> = Some 0"
proof -
  have f: "splitQueueFadeIn (opt exampleSeventy)"
    by (simp add: exampleSeventy_def exampleOptions_def)
  from fadeIn_niceness [OF f, of "\<lparr>th_ancestors = 2, all_ancestors = 3\<rparr>"]
  have a: "niceness True \<lparr>th_ancestors = 2, all_ancestors = 3\<rparr> = Fin 0" by simp
  from fadeIn_niceness [OF f, of "\<lparr>th_ancestors = 3, all_ancestors = 6\<rparr>"]
  have b: "niceness True \<lparr>th_ancestors = 3, all_ancestors = 6\<rparr> = Fin 0.5" by simp
  from fadeIn_niceness [OF f, of "\<lparr>th_ancestors = 4, all_ancestors = 5\<rparr>"]
  have "niceness True \<lparr>th_ancestors = 4, all_ancestors = 5\<rparr> = round32 (4 / 5)" by simp
  then have c: "niceness True \<lparr>th_ancestors = 4, all_ancestors = 5\<rparr>
                  = Fin (13421773 / 16777216)"
    by (simp only: example_round32_eight_tenths)
  from fadeIn_niceness [OF f, of "\<lparr>th_ancestors = 3, all_ancestors = 7\<rparr>"]
  have "niceness True \<lparr>th_ancestors = 3, all_ancestors = 7\<rparr> = round32 (3 / 7)"
    by (simp add: fdiv_def)
  then have d: "niceness True \<lparr>th_ancestors = 3, all_ancestors = 7\<rparr>
                  = Fin (14380471 / 33554432)"
    by (simp only: example_round32_three_sevenths)
  from fadeIn_niceness [OF f, of "\<lparr>th_ancestors = 7, all_ancestors = 10\<rparr>"]
  have "niceness True \<lparr>th_ancestors = 7, all_ancestors = 10\<rparr> = round32 (7 / 10)"
    and q: "bestQueueHeuristics exampleSeventy \<lparr>th_ancestors = 7, all_ancestors = 10\<rparr>
       = cutoffLoop (cutoffs exampleSeventy)
           (niceness True \<lparr>th_ancestors = 7, all_ancestors = 10\<rparr>) 0"
    by (simp_all add: fdiv_def)
  then have e: "niceness True \<lparr>th_ancestors = 7, all_ancestors = 10\<rparr>
                  = Fin (11744051 / 16777216)"
    by (simp only: example_round32_seven_tenths)
  from q e example_seventy_bestQueue
  have g: "bestQueueHeuristics exampleSeventy \<lparr>th_ancestors = 7, all_ancestors = 10\<rparr> = Some 0"
    by simp
  show ?thesis using f a b c d e g by simp
qed

text \<open>
  C9. For a clause whose best queue is \<open>b\<close>, \<^verbatim>\<open>fulfilsAgeLimit\<close> (and likewise
  \<^verbatim>\<open>fulfilsWeightLimit\<close>) returns true iff some queue from \<open>b\<close> through the last one
  admits the clause under its own limit.
\<close>

theorem fulfilsLimit_any_destination_queue:
  assumes "bestQueueHeuristics s (inference (H cl)) = Some b"
  shows "PredicateSplit_fulfilsAgeLimit aw_fulfilsAgeLimit H s cl
           = Inr (\<exists>j. b \<le> j \<and> j < length (queues s) \<and> aw_fulfilsAgeLimit (queues s ! j) cl)
       \<and> PredicateSplit_fulfilsWeightLimit aw_fulfilsWeightLimit H s cl
           = Inr (\<exists>j. b \<le> j \<and> j < length (queues s) \<and> aw_fulfilsWeightLimit (queues s ! j) cl)"
  using assms
  by (simp add: PredicateSplit_fulfilsAgeLimit_def PredicateSplit_fulfilsWeightLimit_def
        anyQueueFrom_iff)


lemma example_bestQueue:
  "bestQueueHeuristics exampleContainer (inference (exampleClauses 1)) = Some 1"
  by (simp add: bestQueueHeuristics_def exampleContainer_def exampleOptions_def
        exampleClauses_def niceness_def cutoffLoop.simps example_round32_eight_tenths)

theorem fulfilsLimit_any_destination_queue_witness:
  "bestQueueHeuristics exampleContainer (inference (exampleClauses 1)) = Some 1
   \<and> PredicateSplit_fulfilsAgeLimit (\<lambda>q cl. \<not> ageLimited (aw_limits q)) exampleClauses
        exampleContainer 1 = Inr True
   \<and> PredicateSplit_fulfilsWeightLimit (\<lambda>q cl. weightLimited (aw_limits q)) exampleClauses
        exampleContainer 1 = Inr False"
proof -
  have A: "\<exists>j. 1 \<le> j \<and> j < length (queues exampleContainer)
             \<and> \<not> ageLimited (aw_limits (queues exampleContainer ! j))"
    by (rule exI [of _ 1]) (simp add: exampleContainer_def AW_new_def)
  have B: "\<not> (\<exists>j. 1 \<le> j \<and> j < length (queues exampleContainer)
             \<and> weightLimited (aw_limits (queues exampleContainer ! j)))"
  proof
    assume "\<exists>j. 1 \<le> j \<and> j < length (queues exampleContainer)
             \<and> weightLimited (aw_limits (queues exampleContainer ! j))"
    then obtain j where j: "1 \<le> j" "j < length (queues exampleContainer)"
      and w: "weightLimited (aw_limits (queues exampleContainer ! j))" by blast
    from j have "j = 1" by (simp add: exampleContainer_def)
    with w show False by (simp add: exampleContainer_def AW_new_def)
  qed
  from fulfilsLimit_any_destination_queue
         [where s = exampleContainer and H = exampleClauses and cl = 1 and b = 1
            and aw_fulfilsAgeLimit = "\<lambda>q cl. \<not> ageLimited (aw_limits q)"
            and aw_fulfilsWeightLimit = "\<lambda>q cl. weightLimited (aw_limits q)",
          OF example_bestQueue]
  have "PredicateSplit_fulfilsAgeLimit (\<lambda>q cl. \<not> ageLimited (aw_limits q)) exampleClauses
          exampleContainer 1 = Inr True
      \<and> PredicateSplit_fulfilsWeightLimit (\<lambda>q cl. weightLimited (aw_limits q)) exampleClauses
          exampleContainer 1 = Inr False"
    by (simp only: A [THEN Eq_TrueI] B [THEN Eq_FalseI])
  with example_bestQueue show ?thesis by blast
qed

section \<open>Properties of the storage in the queues\<close>





lemma simulationPopSelected_members:
  "j < length qs \<Longrightarrow>
   members (qs[k := aw_simulationPopSelected sel (qs ! k)] ! j) = members (qs ! j)"
  by (cases "j = k") (simp_all add: aw_simulationPopSelected_def)







lemma example_add: "PredicateSplit_add exampleClauses 1 exampleContainer = Inr exampleLoaded"
proof -
  have q: "forQueuesFrom (aw_add 1) (queues exampleContainer) 1
             = [AW_new, AW_new\<lparr>members := [1]\<rparr>]"
    by (simp add: exampleContainer_def forQueuesFrom.simps aw_add_def AW_new_def)
  show ?thesis
    unfolding PredicateSplit_add_def example_bestQueue option.case Let_def q
    by (simp add: exampleContainer_def exampleLoaded_def)
qed

lemma example_loaded_reachable:
  "PredicateSplit_reachable exampleClauses exampleContainer exampleLoaded"
  using PredicateSplit_reachable.built example_add by (rule PredicateSplit_reachable.added)


section \<open>Properties of the selection and of the simulation\<close>















lemma example_simulationRun:
  "simulationRun (\<lambda>q. hd (members q)) 1 exampleLoaded = Inr exampleSimulated"
  by code_simp














lemma simulationPopSelected_frame:
  assumes "PredicateSplit_simulationPopSelected sel t = Inr t'"
  shows "balances t' = balances t \<and> events t' = events t
       \<and> ratios t' = ratios t \<and> cutoffs t' = cutoffs t
       \<and> map members (queues t') = map members (queues t)
       \<and> map aw_limits (queues t') = map aw_limits (queues t)"
proof -
  from assms obtain k where
    t': "t' = t\<lparr>simulationBalances := (simulationBalances t)[min_element (simulationBalances t) :=
                wrap32 (simulationBalances t ! min_element (simulationBalances t)
                          + ratios t ! min_element (simulationBalances t))],
             queues := (queues t)[k := aw_simulationPopSelected sel (queues t ! k)]\<rparr>"
    by (rule simulationPopSelected_Inr)
  have "map members ((queues t)[k := aw_simulationPopSelected sel (queues t ! k)])
          = map members (queues t)"
    by (rule nth_equalityI) (simp_all add: simulationPopSelected_members)
  moreover have "map aw_limits ((queues t)[k := aw_simulationPopSelected sel (queues t ! k)])
          = map aw_limits (queues t)"
  proof (rule nth_equalityI)
    show "length (map aw_limits ((queues t)[k := aw_simulationPopSelected sel (queues t ! k)]))
            = length (map aw_limits (queues t))" by simp
  next
    fix i
    assume "i < length (map aw_limits ((queues t)[k := aw_simulationPopSelected sel (queues t ! k)]))"
    then have "i < length (queues t)" by simp
    then show "map aw_limits ((queues t)[k := aw_simulationPopSelected sel (queues t ! k)]) ! i
                 = map aw_limits (queues t) ! i"
      by (cases "i = k") (simp_all add: aw_simulationPopSelected_def)
  qed
  ultimately show ?thesis using t' by simp
qed

lemma simulationPopSelected_balances:
  "PredicateSplit_simulationPopSelected sel (t\<lparr>balances := b\<rparr>) =
     (case PredicateSplit_simulationPopSelected sel t of
        Inl e \<Rightarrow> Inl e
      | Inr t' \<Rightarrow> Inr (t'\<lparr>balances := b\<rparr>))"
  by (simp add: PredicateSplit_simulationPopSelected_def Let_def split: option.splits)

lemma simulationPops_frame:
  "simulationPops sel n t = Inr t' \<Longrightarrow>
   balances t' = balances t \<and> events t' = events t
   \<and> ratios t' = ratios t \<and> cutoffs t' = cutoffs t
   \<and> map members (queues t') = map members (queues t)
   \<and> map aw_limits (queues t') = map aw_limits (queues t)"
proof (induction n arbitrary: t)
  case 0
  then show ?case by simp
next
  case (Suc n)
  then obtain u where u: "PredicateSplit_simulationPopSelected sel t = Inr u"
    and rest: "simulationPops sel n u = Inr t'"
    by (auto split: sum.splits)
  from simulationPopSelected_frame [OF u] Suc.IH [OF rest] show ?case by simp
qed

lemma simulationPops_balances:
  "simulationPops sel n t = Inr t' \<Longrightarrow>
   simulationPops sel n (t\<lparr>balances := b\<rparr>) = Inr (t'\<lparr>balances := b\<rparr>)"
proof (induction n arbitrary: t)
  case 0
  then show ?case by simp
next
  case (Suc n)
  then obtain u where u: "PredicateSplit_simulationPopSelected sel t = Inr u"
    and rest: "simulationPops sel n u = Inr t'"
    by (auto split: sum.splits)
  from Suc.IH [OF rest] u show ?case by (simp add: simulationPopSelected_balances)
qed

text \<open>
  C6. A simulation, \<^verbatim>\<open>simulationInit\<close> followed by any number of
  \<^verbatim>\<open>simulationPopSelected\<close> calls, leaves the real balances, the content and limits of every
  queue, the ratios and the cutoffs as they were and fires no event; its course does not
  depend on the real balances once \<^verbatim>\<open>simulationInit\<close> has copied them.
\<close>

theorem simulation_leaves_real_state:
  assumes "simulationRun sel n s = Inr s'"
  shows "balances s' = balances s \<and> events s' = events s
       \<and> ratios s' = ratios s \<and> cutoffs s' = cutoffs s
       \<and> map members (queues s') = map members (queues s)
       \<and> map aw_limits (queues s') = map aw_limits (queues s)
       \<and> (\<forall>b. simulationPops sel n ((PredicateSplit_simulationInit s)\<lparr>balances := b\<rparr>)
                = Inr (s'\<lparr>balances := b\<rparr>))"
proof -
  let ?t = "PredicateSplit_simulationInit s"
  from assms have p: "simulationPops sel n ?t = Inr s'" by (simp add: simulationRun_def)
  have i: "balances ?t = balances s \<and> events ?t = events s
       \<and> ratios ?t = ratios s \<and> cutoffs ?t = cutoffs s
       \<and> map members (queues ?t) = map members (queues s)
       \<and> map aw_limits (queues ?t) = map aw_limits (queues s)"
    by (simp add: PredicateSplit_simulationInit_def aw_simulationInit_def comp_def)
  from simulationPops_frame [OF p] i simulationPops_balances [OF p] show ?thesis by simp
qed

theorem simulation_leaves_real_state_witness:
  "simulationRun (\<lambda>q. hd (members q)) 1 exampleLoaded = Inr exampleSimulated
   \<and> balances exampleSimulated = balances exampleLoaded
   \<and> events exampleSimulated = events exampleLoaded
   \<and> map members (queues exampleSimulated) = map members (queues exampleLoaded)
   \<and> simulationBalances exampleSimulated = [1, 0]"
proof -
  have "simulationBalances exampleSimulated = [1, 0]" by (simp add: exampleSimulated_def)
  with simulation_leaves_real_state [OF example_simulationRun] example_simulationRun
  show ?thesis by blast
qed

end
